theory Spec2Isabelle
  imports Main "HOL-Library.Word" "HOL-Library.Char_ord" "HOL-Library.List_Lexorder"
begin

section \<open>The caller's variables\<close>

text \<open>
  \<^verbatim>\<open>Options::Add\<close> is a template over the type \<open>T\<close> of the bound variable.  The
  instances modelled are \<open>bool\<close>, \<open>unsigned\<close>, \<open>std::string\<close> (each has a branch of its
  own in \<^verbatim>\<open>get_default\<close> or \<^verbatim>\<open>set\<close>) and \<open>int\<close>, which stands for every other type: it
  takes the last branch of \<^verbatim>\<open>get_default\<close> and the generic \<^verbatim>\<open>set\<close>.

  The class keeps references to variables of the caller (\<^verbatim>\<open>std::ref(var)\<close>, \<^verbatim>\<open>[&var]\<close>).
  They are addresses into a store that every operation takes and gives back, so that two
  registrations may name the same variable.
\<close>

datatype tvalue = VBool bool | VUnsigned "32 word" | VInt "32 word" | VString string

datatype vtype = T_bool | T_unsigned | T_int | T_string

fun type_of :: "tvalue \<Rightarrow> vtype" where
  "type_of (VBool b) = T_bool"
| "type_of (VUnsigned u) = T_unsigned"
| "type_of (VInt i) = T_int"
| "type_of (VString s) = T_string"

type_synonym addr = nat
type_synonym store = "addr \<Rightarrow> tvalue"

text \<open>Reading a \<^verbatim>\<open>bool&\<close>; the C++ types guarantee that the cell holds a \<open>bool\<close>.\<close>

definition as_bool :: "tvalue \<Rightarrow> bool" where
  "as_bool v = (v = VBool True)"

section \<open>The state of an Options object\<close>

text \<open>
  \<^verbatim>\<open>struct option\<close> of \<^verbatim>\<open>getopt.h\<close>: \<^verbatim>\<open>name\<close> (\<open>None\<close> is \<^verbatim>\<open>NULL\<close>), \<^verbatim>\<open>has_arg\<close>,
  \<^verbatim>\<open>flag\<close> (a pointer, \<open>None\<close> is \<^verbatim>\<open>NULL\<close>) and \<^verbatim>\<open>val\<close>.
\<close>

record long_option =
  o_name :: "string option"
  o_has_arg :: int
  o_flag :: "addr option"
  o_val :: int

definition no_argument :: int where "no_argument = 0"
definition required_argument :: int where "required_argument = 1"
definition optional_argument :: int where "optional_argument = 2"

text \<open>
  The two closures stored in \<^verbatim>\<open>setters\<close>: the \<^verbatim>\<open>std::bind\<close> of \<^verbatim>\<open>Options::set\<close> at type \<open>T\<close>
  to \<^verbatim>\<open>std::ref(var)\<close>, and the lambda \<^verbatim>\<open>[&var](std::string) { var = !var; }\<close>.
\<close>

datatype setter = Set_T vtype addr | Negate addr

text \<open>
  The members of the class.  \<^verbatim>\<open>usage\<close> is a \<^verbatim>\<open>std::map\<close> from \<^verbatim>\<open>std::string\<close> to a vector
  of strings: it is kept as the list of its pairs in the order in which the map is
  traversed, the ascending order of the keys (\<^verbatim>\<open>std::less\<close> on \<^verbatim>\<open>std::string\<close>, which
  compares the bytes as unsigned values and a proper prefix as smaller; this is the order
  of \<^typ>\<open>string\<close> here).  \<^verbatim>\<open>optval\<close> is an \<^verbatim>\<open>int\<close>, kept as
  the integer it holds; \<open>int_succ\<close> below is its increment.
\<close>

record Options =
  Header :: string
  IndentFlag :: "32 word"
  IndentDescription :: "32 word"
  long_flags :: "string set"
  options :: "long_option list"
  setters :: "int \<rightharpoonup> setter"
  usage :: "(string \<times> string list) list"
  optval :: int
  optstr :: string

text \<open>The constructor: \<^verbatim>\<open>Options() : IndentFlag(2), IndentDescription(18), optval(256) {}\<close>.\<close>

definition Options_new :: Options where
  "Options_new = \<lparr> Header = [], IndentFlag = 2, IndentDescription = 18, long_flags = {},
     options = [], setters = Map.empty, usage = [], optval = 256, optstr = [] \<rparr>"

text \<open>
  A call returns, throws a \<^verbatim>\<open>std::runtime_error\<close> (what has been written before the
  \<^verbatim>\<open>throw\<close> stays written), or does not return.
\<close>

datatype 'a outcome = Returned 'a | Thrown string 'a | Hangs

section \<open>Rendering the default value\<close>

text \<open>\<^verbatim>\<open>ss << default_val\<close> for the integer types: the decimal digits (classic locale).\<close>

fun digits10 :: "nat \<Rightarrow> string" where
  "digits10 n = (if n < 10 then [''0123456789'' ! n]
                 else digits10 (n div 10) @ [''0123456789'' ! (n mod 10)])"

declare digits10.simps [simp del]

definition show_int :: "int \<Rightarrow> string" where
  "show_int i = (if i < 0 then ''-'' @ digits10 (nat (- i)) else digits10 (nat i))"

text \<open>
  \<^verbatim>\<open>get_default\<close> and its specialisation for \<^verbatim>\<open>std::string\<close>.  The branch is chosen by the
  static type \<open>T\<close>, here the constructor of the value.
\<close>

fun get_default :: "tvalue \<Rightarrow> string" where
  "get_default (VBool b) = '' <switch>''"
| "get_default (VUnsigned u) =
     (if u \<noteq> 0 then '' <default: '' @ digits10 (unat u) @ ''>'' else [])"
| "get_default (VInt i) = '' <default: '' @ show_int (sint i) @ ''>''"
| "get_default (VString s) = (if s \<noteq> [] then '' <default: '' @ s @ ''>'' else [])"

section \<open>The usage block of one entry\<close>

text \<open>
  \<^verbatim>\<open>tty_width\<close>, the \<^verbatim>\<open>TIOCGWINSZ\<close> branch; the argument is what \<^verbatim>\<open>ioctl\<close> left in the
  \<^verbatim>\<open>unsigned short ws_col\<close>.  The \<^verbatim>\<open>TIOCGSIZE\<close> branch is the same on \<^verbatim>\<open>ts_cols\<close>.
\<close>

definition tty_width :: "16 word \<Rightarrow> int" where
  "tty_width ws_col = (if 40 \<le> uint ws_col then uint ws_col else 80)"

text \<open>
  The test \<^verbatim>\<open>width - ss.str().length() > width * 0.3f\<close>.  The left side is computed in
  \<^verbatim>\<open>size_t\<close> (64 bits, wrapping) and converted to \<^verbatim>\<open>float\<close>; the right side is the product
  of \<^verbatim>\<open>(float) width\<close> and the constant \<^verbatim>\<open>0.3f\<close>, which is \<open>10066330 / 2\<^sup>2\<^sup>5\<close>, rounded to
  \<^verbatim>\<open>float\<close>.  A \<^verbatim>\<open>float\<close> (IEEE binary32) has 24 significant bits and rounds to nearest, ties
  to even; all values here are far from its exponent limits.  \<open>round24\<close> rounds a natural
  number to 24 significant bits; both sides are compared in units of \<open>2\<^sup>-\<^sup>2\<^sup>5\<close>.
\<close>

fun bitlen :: "nat \<Rightarrow> nat" where
  "bitlen n = (if n = 0 then 0 else Suc (bitlen (n div 2)))"

declare bitlen.simps [simp del]

definition round24 :: "nat \<Rightarrow> nat" where
  "round24 n = (let s = bitlen n - 24; q = n div 2 ^ s; r = n mod 2 ^ s in
     if 2 ^ s < 2 * r \<or> (2 * r = 2 ^ s \<and> odd q) then (q + 1) * 2 ^ s else q * 2 ^ s)"

definition float_gt_30_percent :: "nat \<Rightarrow> nat \<Rightarrow> bool" where
  "float_gt_30_percent remaining width =
     (round24 (round24 width * 10066330) < round24 remaining * 2 ^ 25)"

text \<open>Subtraction in \<^verbatim>\<open>size_t\<close>.\<close>

definition size_t_sub :: "nat \<Rightarrow> nat \<Rightarrow> nat" where
  "size_t_sub a b = nat ((int a - int b) mod 2 ^ 64)"

text \<open>The conversion of the \<^verbatim>\<open>int i\<close> of the wrapping loop to \<^verbatim>\<open>size_t\<close> (sign extension).\<close>

definition int_to_size_t :: "32 word \<Rightarrow> nat" where
  "int_to_size_t i = nat (sint i mod 2 ^ 64)"

text \<open>
  \<^verbatim>\<open>while (desc.substr(i, 1) == std::string(" ")) ++i;\<close> on the position \<open>i\<close>.  At the end
  of \<open>desc\<close> the substring is empty and the loop stops.
\<close>

function skip_spaces :: "string \<Rightarrow> nat \<Rightarrow> nat" where
  "skip_spaces desc i =
     (if i < length desc \<and> desc ! i = CHR '' '' then skip_spaces desc (Suc i) else i)"
  by pat_completeness auto
termination
  by (relation "measure (\<lambda>(desc, i). length desc - i)") auto

declare skip_spaces.simps [simp del]

text \<open>
  The loop \<^verbatim>\<open>for (int i = 0; i < desc.size(); i += column_width)\<close>.  \<open>i\<close> is a 32-bit
  \<^verbatim>\<open>int\<close>, \<^verbatim>\<open>column_width\<close> an \<^verbatim>\<open>unsigned\<close>: \<^verbatim>\<open>i + column_width\<close> and \<^verbatim>\<open>i += column_width\<close> are
  computed modulo \<open>2\<^sup>3\<^sup>2\<close>, and \<^verbatim>\<open>i < desc.size()\<close> compares in \<^verbatim>\<open>size_t\<close>.  The loop need
  not end (a column width of 0), hence the option type: \<open>None\<close> is a loop that runs
  forever.
\<close>

partial_function (option) wrap_loop ::
  "string \<Rightarrow> 32 word \<Rightarrow> 32 word \<Rightarrow> 32 word \<Rightarrow> string \<Rightarrow> string option" where
  "wrap_loop desc column_width desc_pos i ss =
     (if int_to_size_t i < length desc then
        (let j = (word_of_nat (skip_spaces desc (int_to_size_t i)) :: 32 word) in
         wrap_loop desc column_width desc_pos (j + column_width)
           (if unat (j + column_width) < length desc
            then ss @ take (unat column_width) (drop (int_to_size_t j) desc)
                    @ [CHR 0x0A] @ replicate (unat desc_pos) CHR '' ''
            else ss @ drop (int_to_size_t j) desc))
      else Some ss)"

declare wrap_loop.simps [code]

text \<open>The flag label, and the label padded to the description column.\<close>

definition flag_label :: "Options \<Rightarrow> char \<Rightarrow> string \<Rightarrow> string" where
  "flag_label S flag long_flag =
     replicate (unat (IndentFlag S)) CHR '' ''
     @ (if flag \<noteq> CHR 0x00 then ''-'' @ [flag] @ '' '' else [])
     @ (if long_flag \<noteq> [] then ''--'' @ long_flag @ '' '' else [])"

definition padded_label :: "Options \<Rightarrow> char \<Rightarrow> string \<Rightarrow> string" where
  "padded_label S flag long_flag =
     (let l = flag_label S flag long_flag in
      l @ replicate (if unat (IndentDescription S) < length l then 1
                     else unat (IndentDescription S) - length l) CHR '' '')"

text \<open>
  \<^verbatim>\<open>desc_pos\<close> and \<^verbatim>\<open>column_width\<close>, both \<^verbatim>\<open>unsigned\<close>; \<open>len\<close> is \<^verbatim>\<open>ss.str().length()\<close>.
\<close>

definition desc_pos :: "Options \<Rightarrow> 32 word \<Rightarrow> nat \<Rightarrow> 32 word" where
  "desc_pos S width len =
     (if float_gt_30_percent (size_t_sub (unat width) len) (unat width)
      then word_of_nat len else IndentFlag S + 2)"

definition column_width :: "Options \<Rightarrow> 32 word \<Rightarrow> nat \<Rightarrow> 32 word" where
  "column_width S width len = width - desc_pos S width len"

text \<open>The block that \<^verbatim>\<open>add_entry\<close> builds when the description is not empty.\<close>

definition usage_block ::
  "Options \<Rightarrow> 16 word \<Rightarrow> char \<Rightarrow> string \<Rightarrow> tvalue \<Rightarrow> string \<Rightarrow> string option" where
  "usage_block S ws_col flag long_flag default_val description =
     (let ss = padded_label S flag long_flag;
          desc = description @ get_default default_val;
          width = (word_of_int (tty_width ws_col) :: 32 word);
          dp = desc_pos S width (length ss);
          cw = column_width S width (length ss)
      in wrap_loop desc cw dp 0 (if dp = IndentFlag S + 2 then ss @ [CHR 0x0A] else ss))"

text \<open>\<^verbatim>\<open>this->usage[group].push_back(block)\<close> on the ordered map.\<close>

fun usage_push :: "string \<Rightarrow> string \<Rightarrow> (string \<times> string list) list \<Rightarrow> (string \<times> string list) list" where
  "usage_push grp block [] = [(grp, [block])]"
| "usage_push grp block ((k, ds) # rest) =
     (if grp = k then (k, ds @ [block]) # rest
      else if grp < k then (grp, [block]) # (k, ds) # rest
      else (k, ds) # usage_push grp block rest)"

section \<open>Registration\<close>

text \<open>
  \<^verbatim>\<open>(int) flag\<close> and \<^verbatim>\<open>opt.val = flag\<close>: the conversion of a \<^verbatim>\<open>char\<close> to \<^verbatim>\<open>int\<close>, with \<^verbatim>\<open>char\<close>
  signed as on the usual Linux targets.  \<^verbatim>\<open>getopt_long\<close> returns an option character through
  the same conversion.
\<close>

definition char_int :: "char \<Rightarrow> int" where
  "char_int c = (if (of_char c :: int) < 128 then of_char c else of_char c - 256)"

definition duplicate_flag :: "char \<Rightarrow> string" where
  "duplicate_flag flag = ''Duplicate flag '' @ [CHR 0x27] @ [flag] @ [CHR 0x27]"

definition duplicate_long_flag :: "string \<Rightarrow> string" where
  "duplicate_long_flag long_flag = ''Duplicate long flag '' @ [CHR 0x22] @ long_flag @ [CHR 0x22]"

text \<open>
  \<^verbatim>\<open>optval++\<close> on a 32-bit \<^verbatim>\<open>int\<close>.  At \<open>2\<^sup>3\<^sup>1 - 1\<close> the increment overflows, which C++ leaves
  undefined; \<open>int_succ\<close> wraps around there, as the usual targets do.  The counter starts at
  256, so this takes \<open>2\<^sup>3\<^sup>1 - 256\<close> registrations without a short flag, and every statement
  below that depends on the counter assumes that there are fewer.
\<close>

definition int_succ :: "int \<Rightarrow> int" where
  "int_succ x = (x + 1 + 2 ^ 31) mod 2 ^ 32 - 2 ^ 31"

text \<open>
  \<^verbatim>\<open>add_entry\<close>.  \<open>opt\<close> is the caller's \<^verbatim>\<open>struct option\<close>, passed by reference and given
  back; \<open>ws_col\<close> is what the terminal reports during this call.  The statements are in
  the order of the source: the early return, the short flag (duplicate check, \<^verbatim>\<open>optstr\<close>,
  \<^verbatim>\<open>opt.val\<close>) or the counter, the long flag (duplicate check, insertion, \<^verbatim>\<open>opt.name\<close>),
  \<^verbatim>\<open>opt.flag = NULL\<close>, the usage block.
\<close>

definition add_entry ::
  "16 word \<Rightarrow> long_option \<Rightarrow> char \<Rightarrow> string \<Rightarrow> tvalue \<Rightarrow> string \<Rightarrow> string \<Rightarrow> Options
     \<Rightarrow> (Options \<times> long_option) outcome" where
  "add_entry ws_col opt flag long_flag default_val description grp S =
     (if flag = CHR 0x00 \<and> long_flag = [] then Returned (S, opt)
      else if flag \<noteq> CHR 0x00 \<and> setters S (char_int flag) \<noteq> None
      then Thrown (duplicate_flag flag) (S, opt)
      else
        let S1 = (if flag \<noteq> CHR 0x00 then S\<lparr>optstr := optstr S @ [flag]\<rparr>
                  else S\<lparr>optval := int_succ (optval S)\<rparr>);
            opt1 = opt\<lparr>o_val := (if flag \<noteq> CHR 0x00 then char_int flag else optval S)\<rparr>
        in
        if long_flag \<noteq> [] \<and> long_flag \<in> long_flags S1
        then Thrown (duplicate_long_flag long_flag) (S1, opt1)
        else
          let S2 = (if long_flag \<noteq> []
                    then S1\<lparr>long_flags := insert long_flag (long_flags S1)\<rparr> else S1);
              opt2 = (if long_flag \<noteq> [] then opt1\<lparr>o_name := Some long_flag\<rparr> else opt1);
              opt3 = opt2\<lparr>o_flag := None\<rparr>
          in
          if description \<noteq> [] then
            (case usage_block S2 ws_col flag long_flag default_val description of
               None \<Rightarrow> Hangs
             | Some block \<Rightarrow> Returned (S2\<lparr>usage := usage_push grp block (usage S2)\<rparr>, opt3))
          else Returned (S2, opt3))"

text \<open>
  \<^verbatim>\<open>Add\<close>.  \<open>op\<close> is the content of the local \<^verbatim>\<open>struct option op;\<close> at its declaration: it is
  not initialised, so the content is whatever the stack holds, a parameter here.
\<close>

definition Add ::
  "16 word \<Rightarrow> long_option \<Rightarrow> addr \<Rightarrow> char \<Rightarrow> string \<Rightarrow> string \<Rightarrow> tvalue \<Rightarrow> string
     \<Rightarrow> Options \<times> store \<Rightarrow> (Options \<times> store) outcome" where
  "Add ws_col op var flag long_flag description default_val grp = (\<lambda>(S, \<sigma>).
     case add_entry ws_col op flag long_flag default_val description grp S of
       Hangs \<Rightarrow> Hangs
     | Thrown msg (S1, op1) \<Rightarrow> Thrown msg (S1, \<sigma>)
     | Returned (S1, op1) \<Rightarrow>
         let S2 = S1\<lparr>optstr := optstr S1 @ '':''\<rparr>;
             op2 = op1\<lparr>o_has_arg := required_argument\<rparr>;
             \<sigma>' = \<sigma>(var := default_val);
             S3 = S2\<lparr>setters := (setters S2)(o_val op2 \<mapsto> Set_T (type_of default_val) var)\<rparr>
         in Returned (S3\<lparr>options := options S3 @ [op2]\<rparr>, \<sigma>'))"

text \<open>
  \<^verbatim>\<open>AddSwitch\<close>.  It passes \<^verbatim>\<open>var\<close> itself to \<^verbatim>\<open>add_entry\<close> in the place of the default
  value, before \<^verbatim>\<open>var\<close> is assigned.
\<close>

definition AddSwitch ::
  "16 word \<Rightarrow> long_option \<Rightarrow> addr \<Rightarrow> char \<Rightarrow> string \<Rightarrow> string \<Rightarrow> bool \<Rightarrow> string
     \<Rightarrow> Options \<times> store \<Rightarrow> (Options \<times> store) outcome" where
  "AddSwitch ws_col op var flag long_flag description default_val grp = (\<lambda>(S, \<sigma>).
     case add_entry ws_col op flag long_flag (VBool (as_bool (\<sigma> var))) description grp S of
       Hangs \<Rightarrow> Hangs
     | Thrown msg (S1, op1) \<Rightarrow> Thrown msg (S1, \<sigma>)
     | Returned (S1, op1) \<Rightarrow>
         let op2 = op1\<lparr>o_has_arg := optional_argument\<rparr>;
             \<sigma>' = \<sigma>(var := VBool default_val);
             S2 = S1\<lparr>setters := (setters S1)(o_val op2 \<mapsto> Negate var)\<rparr>
         in Returned (S2\<lparr>options := options S2 @ [op2]\<rparr>, \<sigma>'))"

text \<open>A registration call with its arguments, and a sequence of them up to the first
  one that does not return.\<close>

datatype registration =
    Reg_Add "16 word" long_option addr char string string tvalue string
  | Reg_AddSwitch "16 word" long_option addr char string string bool string

fun register :: "registration \<Rightarrow> Options \<times> store \<Rightarrow> (Options \<times> store) outcome" where
  "register (Reg_Add ws_col op var flag long_flag description default_val grp) m =
     Add ws_col op var flag long_flag description default_val grp m"
| "register (Reg_AddSwitch ws_col op var flag long_flag description default_val grp) m =
     AddSwitch ws_col op var flag long_flag description default_val grp m"

fun register_all :: "registration list \<Rightarrow> Options \<times> store \<Rightarrow> (Options \<times> store) outcome" where
  "register_all [] m = Returned m"
| "register_all (r # rs) m =
     (case register r m of Returned m' \<Rightarrow> register_all rs m' | other \<Rightarrow> other)"

fun reg_var :: "registration \<Rightarrow> addr" where
  "reg_var (Reg_Add ws_col op var flag long_flag description default_val grp) = var"
| "reg_var (Reg_AddSwitch ws_col op var flag long_flag description default_val grp) = var"

fun reg_flag :: "registration \<Rightarrow> char" where
  "reg_flag (Reg_Add ws_col op var flag long_flag description default_val grp) = flag"
| "reg_flag (Reg_AddSwitch ws_col op var flag long_flag description default_val grp) = flag"

fun reg_long_flag :: "registration \<Rightarrow> string" where
  "reg_long_flag (Reg_Add ws_col op var flag long_flag description default_val grp) = long_flag"
| "reg_long_flag (Reg_AddSwitch ws_col op var flag long_flag description default_val grp) = long_flag"

fun reg_default :: "registration \<Rightarrow> tvalue" where
  "reg_default (Reg_Add ws_col op var flag long_flag description default_val grp) = default_val"
| "reg_default (Reg_AddSwitch ws_col op var flag long_flag description default_val grp) = VBool default_val"

fun reg_ws_col :: "registration \<Rightarrow> 16 word" where
  "reg_ws_col (Reg_Add ws_col op var flag long_flag description default_val grp) = ws_col"
| "reg_ws_col (Reg_AddSwitch ws_col op var flag long_flag description default_val grp) = ws_col"

fun reg_op :: "registration \<Rightarrow> long_option" where
  "reg_op (Reg_Add ws_col op var flag long_flag description default_val grp) = op"
| "reg_op (Reg_AddSwitch ws_col op var flag long_flag description default_val grp) = op"

section \<open>Setting a variable\<close>

text \<open>
  \<^verbatim>\<open>set\<close>: the specialisation for \<^verbatim>\<open>std::string\<close> copies the text; the generic one reads the
  variable from a \<^verbatim>\<open>std::stringstream\<close> with \<^verbatim>\<open>ss >> var\<close>.  That extraction is the standard
  library's; \<open>extract T optarg old\<close> is the value it leaves in a variable of type \<open>T\<close> that
  held \<open>old\<close>.
\<close>

type_synonym extraction = "vtype \<Rightarrow> string \<Rightarrow> tvalue \<Rightarrow> tvalue"

definition set_T :: "extraction \<Rightarrow> vtype \<Rightarrow> addr \<Rightarrow> string \<Rightarrow> store \<Rightarrow> store" where
  "set_T extract T var optarg \<sigma> =
     (if T = T_string then \<sigma>(var := VString optarg)
      else \<sigma>(var := extract T optarg (\<sigma> var)))"

fun call_setter :: "extraction \<Rightarrow> setter \<Rightarrow> string \<Rightarrow> store \<Rightarrow> store" where
  "call_setter extract (Set_T T var) optarg \<sigma> = set_T extract T var optarg \<sigma>"
| "call_setter extract (Negate var) optarg \<sigma> = \<sigma>(var := VBool (\<not> as_bool (\<sigma> var)))"

section \<open>Parsing\<close>

text \<open>
  \<^verbatim>\<open>getopt_long\<close> belongs to the C library.  \<^verbatim>\<open>Parse\<close> calls it until it returns \<open>-1\<close>; what
  \<^verbatim>\<open>Parse\<close> sees is the sequence of its results, each a code \<^verbatim>\<open>ch\<close> and the value of \<^verbatim>\<open>optarg\<close>
  (\<open>None\<close> is \<^verbatim>\<open>NULL\<close>).  The scanner is a parameter of \<^verbatim>\<open>Parse\<close>: a function from the option
  string, the table of long options and \<^verbatim>\<open>argv\<close> to the sequence of the results of its
  successive calls, one scan of \<^verbatim>\<open>argv\<close> from the start.
\<close>

type_synonym getopt_result = "int \<times> string option"
type_synonym scanner = "string \<Rightarrow> long_option list \<Rightarrow> string list \<Rightarrow> getopt_result list"

text \<open>
  The \<^verbatim>\<open>while\<close> loop of \<^verbatim>\<open>Parse\<close>, over the results still to come: it ends with \<open>True\<close> at a
  code \<open>-1\<close> (and when the results are exhausted, which is the scanner returning \<open>-1\<close>), and
  with \<open>False\<close> at a code that has no setter.
\<close>

fun dispatch :: "extraction \<Rightarrow> (int \<rightharpoonup> setter) \<Rightarrow> getopt_result list \<Rightarrow> store \<Rightarrow> bool \<times> store" where
  "dispatch extract st [] \<sigma> = (True, \<sigma>)"
| "dispatch extract st ((ch, optarg) # rest) \<sigma> =
     (if ch = - 1 then (True, \<sigma>)
      else case st ch of
        Some f \<Rightarrow> dispatch extract st rest
                    (call_setter extract f (case optarg of Some a \<Rightarrow> a | None \<Rightarrow> []) \<sigma>)
      | None \<Rightarrow> (False, \<sigma>))"

definition table_end :: long_option where
  "table_end = \<lparr> o_name = None, o_has_arg = 0, o_flag = None, o_val = 0 \<rparr>"

definition Parse ::
  "scanner \<Rightarrow> extraction \<Rightarrow> string list \<Rightarrow> Options \<times> store \<Rightarrow> bool \<times> Options \<times> store" where
  "Parse getopt_long extract argv = (\<lambda>(S, \<sigma>).
     let S1 = S\<lparr>options := options S @ [table_end]\<rparr>;
         (r, \<sigma>') = dispatch extract (setters S1) (getopt_long (optstr S1) (options S1) argv) \<sigma>
     in (r, S1, \<sigma>'))"

section \<open>The usage text\<close>

definition usage_section :: "string \<times> string list \<Rightarrow> string" where
  "usage_section it =
     (if fst it \<noteq> [] \<and> fst it \<noteq> ''_'' then fst it @ '':'' @ [CHR 0x0A] else [])
     @ concat (map (\<lambda>description. description @ [CHR 0x0A]) (snd it))
     @ [CHR 0x0A]"

definition Usage :: "Options \<Rightarrow> string" where
  "Usage S = (if Header S \<noteq> [] then Header S else []) @ concat (map usage_section (usage S))"

section \<open>The scanner of the C library\<close>

text \<open>
  A model of \<^verbatim>\<open>getopt_long\<close> as the GNU C library documents and implements it (version
  2.26 and later), for one scan of \<^verbatim>\<open>argv\<close> from \<^verbatim>\<open>optind = 1\<close> with \<^verbatim>\<open>POSIXLY_CORRECT\<close> not
  set.  It is used below to run \<^verbatim>\<open>Parse\<close> on concrete command lines and to say what is
  reported for an argument that names no flag; what is said of the loop of \<^verbatim>\<open>Parse\<close> is
  proved for an arbitrary scanner.

  An element of \<^verbatim>\<open>argv\<close> that is not an option (it does not start with \<open>-\<close>, or is \<open>-\<close>
  itself) is skipped, ends the scan, or is returned with code 1, according to the first
  character of the option string; \<open>--\<close> ends the scan; \<open>--name\<close>, \<open>--name=text\<close> is a long
  option, looked up in the table up to its first entry without a name, first for an exact
  match and then as an abbreviation; any other element is a cluster of short options,
  each looked up in the option string, where one colon after the character asks for an
  argument (the rest of the cluster, or the next element) and two colons allow one (the
  rest of the cluster only).  An unknown or ambiguous option and a long option given an
  argument it does not take are reported as \<open>?\<close>; a missing argument as \<open>?\<close>, or as \<open>:\<close> when
  the option string starts with a colon.  The scanner reads its strings as C strings.
\<close>

definition c_str :: "string \<Rightarrow> string" where
  "c_str s = takeWhile (\<lambda>c. c \<noteq> CHR 0x00) s"

datatype ordering = REQUIRE_ORDER | PERMUTE | RETURN_IN_ORDER

definition scan_ordering :: "string \<Rightarrow> ordering" where
  "scan_ordering optstring =
     (case optstring of
        c # cs \<Rightarrow> (if c = CHR ''-'' then RETURN_IN_ORDER
                   else if c = CHR ''+'' then REQUIRE_ORDER else PERMUTE)
      | [] \<Rightarrow> PERMUTE)"

definition scan_optstring :: "string \<Rightarrow> string" where
  "scan_optstring optstring =
     (case optstring of
        c # cs \<Rightarrow> (if c = CHR ''-'' \<or> c = CHR ''+'' then cs else optstring)
      | [] \<Rightarrow> [])"

definition missing_argument :: "string \<Rightarrow> int" where
  "missing_argument optstring =
     (case optstring of
        c # cs \<Rightarrow> (if c = CHR '':'' then char_int CHR '':'' else char_int CHR ''?'')
      | [] \<Rightarrow> char_int CHR ''?'')"

definition long_table :: "long_option list \<Rightarrow> long_option list" where
  "long_table longopts = takeWhile (\<lambda>p. o_name p \<noteq> None) longopts"

definition option_name :: "long_option \<Rightarrow> string" where
  "option_name p = (case o_name p of Some n \<Rightarrow> c_str n | None \<Rightarrow> [])"

definition find_long :: "long_option list \<Rightarrow> string \<Rightarrow> long_option option option" where
  "find_long longopts nm =
     (case filter (\<lambda>p. option_name p = nm) (long_table longopts) of
        p # ps \<Rightarrow> Some (Some p)
      | [] \<Rightarrow>
         (case filter (\<lambda>p. take (length nm) (option_name p) = nm) (long_table longopts) of
            [] \<Rightarrow> None
          | p # ps \<Rightarrow>
              (if \<exists>q \<in> set ps. \<not> (o_has_arg q = o_has_arg p \<and> o_flag q = o_flag p \<and> o_val q = o_val p)
               then Some None else Some (Some p))))"

definition process_long_option ::
  "string \<Rightarrow> long_option list \<Rightarrow> string \<Rightarrow> string list \<Rightarrow> getopt_result \<times> bool" where
  "process_long_option optstring longopts text rest =
     (let nm = takeWhile (\<lambda>c. c \<noteq> CHR ''='') text in
      case find_long longopts nm of
        None \<Rightarrow> ((char_int CHR ''?'', None), False)
      | Some None \<Rightarrow> ((char_int CHR ''?'', None), False)
      | Some (Some p) \<Rightarrow>
          (let code = (if o_flag p \<noteq> None then 0 else o_val p) in
           if length nm < length text then
             (if o_has_arg p \<noteq> 0 then ((code, Some (drop (Suc (length nm)) text)), False)
              else ((char_int CHR ''?'', None), False))
           else if o_has_arg p = 1 then
             (case rest of
                a # rest' \<Rightarrow> ((code, Some a), True)
              | [] \<Rightarrow> ((missing_argument optstring, None), False))
           else ((code, None), False)))"

datatype short_kind = Invalid | W_long | No_arg | Optional_arg | Required_arg

definition short_option :: "string \<Rightarrow> char \<Rightarrow> short_kind" where
  "short_option optstring c =
     (case dropWhile (\<lambda>x. x \<noteq> c) optstring of
        [] \<Rightarrow> Invalid
      | t # ts \<Rightarrow>
          (if c = CHR '':'' \<or> c = CHR '';'' then Invalid
           else if c = CHR ''W'' \<and> take 1 ts = '';'' then W_long
           else if take 1 ts = '':'' then (if take 1 (drop 1 ts) = '':'' then Optional_arg else Required_arg)
           else No_arg))"

fun getopt_scan ::
  "ordering \<Rightarrow> string \<Rightarrow> long_option list \<Rightarrow> string \<Rightarrow> string list \<Rightarrow> getopt_result list" where
  "getopt_scan ord optstring longopts [] [] = []"
| "getopt_scan ord optstring longopts [] (a # rest) =
     (if a = ''-'' \<or> take 1 a \<noteq> ''-'' then
        (case ord of
           PERMUTE \<Rightarrow> getopt_scan ord optstring longopts [] rest
         | REQUIRE_ORDER \<Rightarrow> []
         | RETURN_IN_ORDER \<Rightarrow> (1, Some a) # getopt_scan ord optstring longopts [] rest)
      else if a = ''--'' then []
      else if take 2 a = ''--'' then
        (case process_long_option optstring longopts (drop 2 a) rest of
           (res, used) \<Rightarrow> res # getopt_scan ord optstring longopts [] (if used then tl rest else rest))
      else getopt_scan ord optstring longopts (tl a) rest)"
| "getopt_scan ord optstring longopts (c # cs) rest =
     (case short_option optstring c of
        Invalid \<Rightarrow> (char_int CHR ''?'', None) # getopt_scan ord optstring longopts cs rest
      | No_arg \<Rightarrow> (char_int c, None) # getopt_scan ord optstring longopts cs rest
      | Optional_arg \<Rightarrow>
          (char_int c, if cs \<noteq> [] then Some cs else None) # getopt_scan ord optstring longopts [] rest
      | Required_arg \<Rightarrow>
          (if cs \<noteq> [] then (char_int c, Some cs) # getopt_scan ord optstring longopts [] rest
           else (case rest of
                   [] \<Rightarrow> [(missing_argument optstring, None)]
                 | a # rest' \<Rightarrow> (char_int c, Some a) # getopt_scan ord optstring longopts [] rest'))
      | W_long \<Rightarrow>
          (if cs \<noteq> [] then
             (case process_long_option optstring longopts cs rest of
                (res, used) \<Rightarrow> res # getopt_scan ord optstring longopts [] (if used then tl rest else rest))
           else (case rest of
                   [] \<Rightarrow> [(missing_argument optstring, None)]
                 | a # rest' \<Rightarrow>
                     (case process_long_option optstring longopts a rest' of
                        (res, used) \<Rightarrow> res # getopt_scan ord optstring longopts [] (if used then tl rest' else rest')))))"

definition getopt_long :: scanner where
  "getopt_long optstring longopts argv =
     (case argv of
        [] \<Rightarrow> []
      | prog # args \<Rightarrow>
          getopt_scan (scan_ordering (c_str optstring)) (scan_optstring (c_str optstring)) longopts [] args)"

section \<open>Definitions used to state the properties\<close>

text \<open>The default that the registrations declare for the variable at an address: that of
  the last registration that binds it.\<close>

fun declared_default :: "registration list \<Rightarrow> addr \<Rightarrow> tvalue option" where
  "declared_default [] a = None"
| "declared_default (r # rs) a =
     (case declared_default rs a of
        Some d \<Rightarrow> Some d
      | None \<Rightarrow> (if reg_var r = a then Some (reg_default r) else None))"

text \<open>The rule of the specification for option codes: the character of the short flag,
  or else the next value of a counter.\<close>

fun assigned_codes :: "int \<Rightarrow> registration list \<Rightarrow> int list" where
  "assigned_codes next [] = []"
| "assigned_codes next (r # rs) =
     (if reg_flag r \<noteq> CHR 0x00 then char_int (reg_flag r) # assigned_codes next rs
      else next # assigned_codes (next + 1) rs)"

text \<open>A registration that names a short flag or a long flag.\<close>

definition names_a_flag :: "registration \<Rightarrow> bool" where
  "names_a_flag r = (\<not> (reg_flag r = CHR 0x00 \<and> reg_long_flag r = []))"

text \<open>An object as the constructor leaves it, whatever the caller has written to its three
  public members.\<close>

definition constructed :: "string \<Rightarrow> 32 word \<Rightarrow> 32 word \<Rightarrow> Options" where
  "constructed h i d = Options_new\<lparr>Header := h, IndentFlag := i, IndentDescription := d\<rparr>"

text \<open>The code that \<^verbatim>\<open>add_entry\<close> gives to a registration that names a flag.\<close>

definition code_for :: "Options \<Rightarrow> registration \<Rightarrow> int" where
  "code_for S r = (if reg_flag r \<noteq> CHR 0x00 then char_int (reg_flag r) else optval S)"

text \<open>What registration maintains: every key of \<^verbatim>\<open>setters\<close> is below the counter, the
  counter is at least 256, the codes in \<^verbatim>\<open>options\<close> are keys of \<^verbatim>\<open>setters\<close>, and no two are
  equal.\<close>

definition codes_inv :: "Options \<Rightarrow> bool" where
  "codes_inv S = ((\<forall>k \<in> dom (setters S). k < optval S) \<and> 256 \<le> optval S
     \<and> set (map o_val (options S)) \<subseteq> dom (setters S) \<and> distinct (map o_val (options S)))"

section \<open>Concrete inputs\<close>

text \<open>A content of the uninitialised local \<^verbatim>\<open>op\<close>, a store, and the registrations of the usual
  example: a switch \<open>-v\<close>, \<open>--verbose\<close> bound to the variable at address 0 and a string flag
  \<open>-o\<close>, \<open>--output\<close> with default \<open>out.txt\<close> bound to the variable at address 1; then the
  same string flag without its short character, and a second long-only flag.\<close>

definition stack_garbage :: long_option where
  "stack_garbage = \<lparr> o_name = Some ''garbage'', o_has_arg = 7, o_flag = Some 3, o_val = 118 \<rparr>"

definition store0 :: store where
  "store0 = (\<lambda>a. VBool True)"

definition verbose_switch :: registration where
  "verbose_switch = Reg_AddSwitch 80 stack_garbage 0 CHR ''v'' ''verbose'' [] False []"

definition output_flag :: registration where
  "output_flag = Reg_Add 80 stack_garbage 1 CHR ''o'' ''output'' [] (VString ''out.txt'') []"

definition output_long_only :: registration where
  "output_long_only = Reg_Add 80 stack_garbage 1 (CHR 0x00) ''output'' [] (VString ''out.txt'') []"

definition width_long_only :: registration where
  "width_long_only = Reg_Add 80 stack_garbage 2 (CHR 0x00) ''width'' [] (VUnsigned 8) []"

definition verbose_again :: registration where
  "verbose_again = Reg_AddSwitch 80 stack_garbage 3 CHR ''v'' ''very'' [] True []"

text \<open>The object after \<open>verbose_switch\<close> and \<open>output_flag\<close>.\<close>

definition after_example :: Options where
  "after_example = \<lparr> Header = [], IndentFlag = 2, IndentDescription = 18,
     long_flags = {''output'', ''verbose''},
     options = [\<lparr> o_name = Some ''verbose'', o_has_arg = 2, o_flag = None, o_val = 118 \<rparr>,
                \<lparr> o_name = Some ''output'', o_has_arg = 1, o_flag = None, o_val = 111 \<rparr>],
     setters = [118 \<mapsto> Negate 0, 111 \<mapsto> Set_T T_string 1],
     usage = [], optval = 256, optstr = ''vo:'' \<rparr>"

text \<open>The object after \<open>verbose_switch\<close> alone, and after \<open>verbose_switch\<close>, \<open>output_long_only\<close>
  and \<open>width_long_only\<close>.\<close>

definition after_verbose :: Options where
  "after_verbose = \<lparr> Header = [], IndentFlag = 2, IndentDescription = 18,
     long_flags = {''verbose''},
     options = [\<lparr> o_name = Some ''verbose'', o_has_arg = 2, o_flag = None, o_val = 118 \<rparr>],
     setters = [118 \<mapsto> Negate 0], usage = [], optval = 256, optstr = ''v'' \<rparr>"

definition after_three :: Options where
  "after_three = \<lparr> Header = [], IndentFlag = 2, IndentDescription = 18,
     long_flags = {''width'', ''output'', ''verbose''},
     options = [\<lparr> o_name = Some ''verbose'', o_has_arg = 2, o_flag = None, o_val = 118 \<rparr>,
                \<lparr> o_name = Some ''output'', o_has_arg = 1, o_flag = None, o_val = 256 \<rparr>,
                \<lparr> o_name = Some ''width'', o_has_arg = 1, o_flag = None, o_val = 257 \<rparr>],
     setters = [118 \<mapsto> Negate 0, 256 \<mapsto> Set_T T_string 1, 257 \<mapsto> Set_T T_unsigned 2],
     usage = [], optval = 258, optstr = ''v::'' \<rparr>"

text \<open>The argument text that \<^verbatim>\<open>Parse\<close> hands to a setter (\<^verbatim>\<open>optarg ? optarg : ""\<close>), whether a
  result's code has a setter, the variable a setter writes, and one turn of the loop for a
  result whose code has a setter.\<close>

definition result_arg :: "getopt_result \<Rightarrow> string" where
  "result_arg e = (case snd e of Some a \<Rightarrow> a | None \<Rightarrow> [])"

definition has_setter :: "(int \<rightharpoonup> setter) \<Rightarrow> getopt_result \<Rightarrow> bool" where
  "has_setter st e = (st (fst e) \<noteq> None)"

text \<open>The results that the loop of \<^verbatim>\<open>Parse\<close> looks at: those before the first \<open>-1\<close>.\<close>

definition seen_results :: "scanner \<Rightarrow> Options \<Rightarrow> string list \<Rightarrow> getopt_result list" where
  "seen_results scan S argv =
     takeWhile (\<lambda>e. fst e \<noteq> - 1) (scan (optstr S) (options S @ [table_end]) argv)"

fun setter_var :: "setter \<Rightarrow> addr" where
  "setter_var (Set_T T var) = var"
| "setter_var (Negate var) = var"

definition invoke :: "extraction \<Rightarrow> (int \<rightharpoonup> setter) \<Rightarrow> store \<Rightarrow> getopt_result \<Rightarrow> store" where
  "invoke extract st \<sigma> e =
     (case st (fst e) of Some f \<Rightarrow> call_setter extract f (result_arg e) \<sigma> | None \<Rightarrow> \<sigma>)"

text \<open>More inputs: an extraction that leaves the variable as it is (no example below reads
  a number), a switch \<open>-?\<close>, \<open>--help\<close> bound to the variable at address 0, and the objects
  after it and after \<open>verbose_switch\<close> and \<open>output_long_only\<close>.\<close>

definition keep_value :: extraction where
  "keep_value T optarg old = old"



definition after_long_only :: Options where
  "after_long_only = \<lparr> Header = [], IndentFlag = 2, IndentDescription = 18,
     long_flags = {''output'', ''verbose''},
     options = [\<lparr> o_name = Some ''verbose'', o_has_arg = 2, o_flag = None, o_val = 118 \<rparr>,
                \<lparr> o_name = Some ''output'', o_has_arg = 1, o_flag = None, o_val = 256 \<rparr>],
     setters = [118 \<mapsto> Negate 0, 256 \<mapsto> Set_T T_string 1],
     usage = [], optval = 257, optstr = ''v:'' \<rparr>"

text \<open>The description and the group of a registration; whether it adds a block to the
  usage table (it names a flag and has a description); the block it adds; and the blocks
  that the table holds for a group.\<close>

fun reg_description :: "registration \<Rightarrow> string" where
  "reg_description (Reg_Add ws_col op var flag long_flag description default_val grp) = description"
| "reg_description (Reg_AddSwitch ws_col op var flag long_flag description default_val grp) = description"

fun reg_group :: "registration \<Rightarrow> string" where
  "reg_group (Reg_Add ws_col op var flag long_flag description default_val grp) = grp"
| "reg_group (Reg_AddSwitch ws_col op var flag long_flag description default_val grp) = grp"

definition described :: "registration \<Rightarrow> bool" where
  "described r = (names_a_flag r \<and> reg_description r \<noteq> [])"

fun reg_block :: "Options \<Rightarrow> registration \<Rightarrow> string option" where
  "reg_block S (Reg_Add ws_col op var flag long_flag description default_val grp) =
     usage_block S ws_col flag long_flag default_val description"
| "reg_block S (Reg_AddSwitch ws_col op var flag long_flag description default_val grp) =
     usage_block S ws_col flag long_flag (VBool False) description"

definition group_blocks :: "(string \<times> string list) list \<Rightarrow> string \<Rightarrow> string list" where
  "group_blocks u g = (case map_of u g of None \<Rightarrow> [] | Some ds \<Rightarrow> ds)"

text \<open>What registration maintains of the usage table: ascending keys, no group without a
  block.\<close>

definition usage_inv :: "(string \<times> string list) list \<Rightarrow> bool" where
  "usage_inv u = (sorted_wrt (<) (map fst u) \<and> list_all (\<lambda>p. snd p \<noteq> []) u)"

text \<open>Two described flags: the first registered in group \<open>b\<close>, the second in group \<open>a\<close>.\<close>

definition first_in_b :: registration where
  "first_in_b = Reg_Add 80 stack_garbage 0 CHR ''x'' ''xray'' ''first'' (VString []) ''b''"

definition then_in_a :: registration where
  "then_in_a = Reg_Add 80 stack_garbage 1 CHR ''y'' ''yank'' ''second'' (VString []) ''a''"

definition after_two_groups :: Options where
  "after_two_groups = \<lparr> Header = [], IndentFlag = 2, IndentDescription = 18,
     long_flags = {''yank'', ''xray''},
     options = [\<lparr> o_name = Some ''xray'', o_has_arg = 1, o_flag = None, o_val = 120 \<rparr>,
                \<lparr> o_name = Some ''yank'', o_has_arg = 1, o_flag = None, o_val = 121 \<rparr>],
     setters = [120 \<mapsto> Set_T T_string 0, 121 \<mapsto> Set_T T_string 1],
     usage = [(''a'', [''  -y --yank       second'']), (''b'', [''  -x --xray       first''])],
     optval = 256, optstr = ''x:y:'' \<rparr>"

text \<open>A long flag of 35 characters, for a label that is longer than a terminal of 40
  columns.\<close>

definition long_name :: string where
  "long_name = replicate 35 CHR ''a''"

text \<open>
  The lines that the wrapping loop emits from position \<open>k\<close> of the description for a
  column width \<open>c\<close>, in natural numbers without wrap-around, and the text they make: each
  line but the last is followed by a newline and the indentation of \<open>dp\<close> spaces.
\<close>

function wrap_lines :: "string \<Rightarrow> nat \<Rightarrow> nat \<Rightarrow> string list" where
  "wrap_lines desc c k =
     (if k < length desc \<and> 0 < c then
        (let j = skip_spaces desc k in
         if j + c < length desc then take c (drop j desc) # wrap_lines desc c (j + c)
         else [drop j desc])
      else [])"
  by pat_completeness auto
termination
proof (relation "measure (\<lambda>(desc, c, k). length desc - k)")
  show "wf (measure (\<lambda>(desc, c, k). length desc - k))" by simp
next
  fix desc :: string and c k j :: nat
  assume a: "k < length desc \<and> 0 < c" and j: "j = skip_spaces desc k"
    and b: "j + c < length desc"
  have "i \<le> skip_spaces d i" for d i
  proof (induction d i rule: skip_spaces.induct)
    case (1 d i)
    show ?case
    proof (cases "i < length d \<and> d ! i = CHR '' ''")
      case True
      with 1 have "Suc i \<le> skip_spaces d (Suc i)" by simp
      with True show ?thesis by (subst skip_spaces.simps) auto
    next
      case False
      then show ?thesis by (subst skip_spaces.simps) auto
    qed
  qed
  then have "k \<le> j" using j by simp
  with a b show "((desc, c, j + c), (desc, c, k)) \<in> measure (\<lambda>(desc, c, k). length desc - k)"
    by simp
qed

declare wrap_lines.simps [simp del]

fun join_lines :: "nat \<Rightarrow> string list \<Rightarrow> string" where
  "join_lines dp [] = []"
| "join_lines dp [l] = l"
| "join_lines dp (l # m # ls) = l @ [CHR 0x0A] @ replicate dp CHR '' '' @ join_lines dp (m # ls)"

text \<open>
  A domain on which registration returns.  The usage block of an entry fits when its padded
  label is no longer than the terminal is wide, the fall-back column \<^verbatim>\<open>IndentFlag + 2\<close> lies
  within the terminal, and the description with its default suffix is shorter than
  \<open>2\<^sup>3\<^sup>1\<close> minus the width; a registration fits when it adds no block or its block fits.
\<close>

definition block_fits :: "Options \<Rightarrow> 16 word \<Rightarrow> char \<Rightarrow> string \<Rightarrow> string \<Rightarrow> bool" where
  "block_fits S ws_col flag long_flag desc =
     (length (padded_label S flag long_flag) \<le> nat (tty_width ws_col)
      \<and> unat (IndentFlag S) + 2 < nat (tty_width ws_col)
      \<and> length desc + nat (tty_width ws_col) < 2 ^ 31)"

definition reg_fits :: "Options \<Rightarrow> registration \<Rightarrow> bool" where
  "reg_fits S r =
     (if described r
      then block_fits S (reg_ws_col r) (reg_flag r) (reg_long_flag r)
             (reg_description r @ get_default (reg_default r))
      else True)"

text \<open>
  The key that a registration stores its setter under, when a later short flag could meet
  it: the character of its short flag, or, when it names no flag at all, the \<^verbatim>\<open>val\<close> that
  its uninitialised \<^verbatim>\<open>op\<close> holds.  (The keys taken from the counter are 256 and above.)
\<close>

definition short_key :: "registration \<Rightarrow> int list" where
  "short_key r =
     (if reg_flag r \<noteq> CHR 0x00 then [char_int (reg_flag r)]
      else if reg_long_flag r = [] then [o_val (reg_op r)] else [])"

text \<open>
  Registrations that an object accepts: each fits, no two claim the same short key or the
  same long flag, none claims a short flag or a long flag that the object already has, and
  the counter, at least 256, stays below \<open>2\<^sup>3\<^sup>1\<close>.
\<close>

definition registrable :: "Options \<Rightarrow> registration list \<Rightarrow> bool" where
  "registrable S rs =
     (list_all (reg_fits S) rs
      \<and> distinct (concat (map short_key rs))
      \<and> distinct (filter (\<lambda>l. l \<noteq> []) (map reg_long_flag rs))
      \<and> list_all (\<lambda>r. reg_flag r = CHR 0x00 \<or> setters S (char_int (reg_flag r)) = None) rs
      \<and> list_all (\<lambda>r. reg_long_flag r = [] \<or> reg_long_flag r \<notin> long_flags S) rs
      \<and> 256 \<le> optval S \<and> optval S + int (length rs) < 2 ^ 31)"

text \<open>A value flag \<open>-w\<close>, \<open>--width\<close> with a description that takes three lines on a terminal
  of 40 columns.\<close>

definition wide_flag :: registration where
  "wide_flag = Reg_Add 40 stack_garbage 2 CHR ''w'' ''width''
     ''The width of the output in columns of text'' (VUnsigned 8) []"

text \<open>A value flag that names neither a short nor a long flag, and the object after
  \<open>verbose_switch\<close> and that call when the uninitialised \<^verbatim>\<open>op\<close> is \<open>stack_garbage\<close>.\<close>

definition nameless_flag :: registration where
  "nameless_flag = Reg_Add 80 stack_garbage 1 (CHR 0x00) [] [] (VString ''d'') []"

definition after_nameless :: Options where
  "after_nameless = \<lparr> Header = [], IndentFlag = 2, IndentDescription = 18,
     long_flags = {''verbose''},
     options = [\<lparr> o_name = Some ''verbose'', o_has_arg = 2, o_flag = None, o_val = 118 \<rparr>,
                \<lparr> o_name = Some ''garbage'', o_has_arg = 1, o_flag = Some 3, o_val = 118 \<rparr>],
     setters = [118 \<mapsto> Set_T T_string 1], usage = [], optval = 256, optstr = ''v:'' \<rparr>"


section \<open>Registration: what a call changes\<close>

lemma int_succ_small: "- (2 ^ 31) \<le> x + 1 \<Longrightarrow> x + 1 < 2 ^ 31 \<Longrightarrow> int_succ x = x + 1"
proof -
  assume a: "- (2 ^ 31) \<le> x + 1" and b: "x + 1 < 2 ^ 31"
  have "0 \<le> x + 1 + 2 ^ 31" using a by simp
  moreover have "x + 1 + 2 ^ 31 < 2 ^ 32" using b by simp
  ultimately have "(x + 1 + 2 ^ 31) mod 2 ^ 32 = x + 1 + 2 ^ 31" by (rule mod_pos_pos_trivial)
  then show ?thesis by (simp add: int_succ_def)
qed

lemma add_entry_no_flags:
  "add_entry ws_col opt (CHR 0x00) [] default_val description grp S = Returned (S, opt)"
  by (simp add: add_entry_def)

lemma add_entry_Returned:
  assumes "add_entry ws_col opt flag long_flag default_val description grp S = Returned (S', opt')"
    and "\<not> (flag = CHR 0x00 \<and> long_flag = [])"
  shows "setters S' = setters S" and "options S' = options S"
    and "o_val opt' = (if flag \<noteq> CHR 0x00 then char_int flag else optval S)"
    and "optval S' = (if flag \<noteq> CHR 0x00 then optval S else int_succ (optval S))"
    and "flag \<noteq> CHR 0x00 \<Longrightarrow> setters S (char_int flag) = None"
    and "long_flags S' = (if long_flag \<noteq> [] then insert long_flag (long_flags S) else long_flags S)"
    and "optstr S' = (if flag \<noteq> CHR 0x00 then optstr S @ [flag] else optstr S)"
    and "Header S' = Header S" and "IndentFlag S' = IndentFlag S"
    and "IndentDescription S' = IndentDescription S"
  using assms
  by (auto simp: add_entry_def Let_def split: if_splits option.splits)

lemma add_entry_Returned_any:
  assumes "add_entry ws_col opt flag long_flag default_val description grp S = Returned (S', opt')"
  shows "setters S' = setters S" and "options S' = options S"
    and "long_flags S \<subseteq> long_flags S'"
  using assms
  by (auto simp: add_entry_def Let_def split: if_splits option.splits)

lemma register_Returned:
  assumes "register r (S, \<sigma>) = Returned (S', \<sigma>')"
  shows "\<sigma>' = \<sigma>(reg_var r := reg_default r)"
    and "dom (setters S) \<subseteq> dom (setters S')"
    and "long_flags S \<subseteq> long_flags S'"
proof -
  show "\<sigma>' = \<sigma>(reg_var r := reg_default r)"
    using assms
    by (cases r) (auto simp: Add_def AddSwitch_def Let_def split: outcome.splits prod.splits)
  show "dom (setters S) \<subseteq> dom (setters S')"
    using assms
    by (cases r)
      (auto simp: Add_def AddSwitch_def Let_def dest!: add_entry_Returned_any(1)
        split: outcome.splits prod.splits)
  show "long_flags S \<subseteq> long_flags S'"
    using assms
    by (cases r)
      (auto simp: Add_def AddSwitch_def Let_def dest!: add_entry_Returned_any(3)
        split: outcome.splits prod.splits)
qed

lemma register_Returned_flagged:
  assumes "register r (S, \<sigma>) = Returned (S', \<sigma>')" and "names_a_flag r"
  shows "map o_val (options S') = map o_val (options S) @ [code_for S r]
    \<and> dom (setters S') = insert (code_for S r) (dom (setters S))
    \<and> optval S' = (if reg_flag r \<noteq> CHR 0x00 then optval S else int_succ (optval S))
    \<and> (reg_flag r \<noteq> CHR 0x00 \<longrightarrow> setters S (char_int (reg_flag r)) = None)
    \<and> (reg_long_flag r \<noteq> [] \<longrightarrow> reg_long_flag r \<in> long_flags S')"
proof (cases r)
  case (Reg_Add ws_col op var flag long_flag description default_val grp)
  with assms obtain S1 op1 where
    ae: "add_entry ws_col op flag long_flag default_val description grp S = Returned (S1, op1)"
    and S': "S' = S1\<lparr>optstr := optstr S1 @ '':'',
               setters := (setters S1)(o_val op1 \<mapsto> Set_T (type_of default_val) var),
               options := options S1 @ [op1\<lparr>o_has_arg := required_argument\<rparr>]\<rparr>"
    by (auto simp: Add_def Let_def split: outcome.splits prod.splits)
  have nf: "\<not> (flag = CHR 0x00 \<and> long_flag = [])"
    using assms(2) Reg_Add by (simp add: names_a_flag_def)
  note f = add_entry_Returned[OF ae nf]
  show ?thesis
    using f(1-6) by (simp add: S' Reg_Add code_for_def)
next
  case (Reg_AddSwitch ws_col op var flag long_flag description default_val grp)
  with assms obtain S1 op1 where
    ae: "add_entry ws_col op flag long_flag (VBool (as_bool (\<sigma> var))) description grp S = Returned (S1, op1)"
    and S': "S' = S1\<lparr>setters := (setters S1)(o_val op1 \<mapsto> Negate var),
               options := options S1 @ [op1\<lparr>o_has_arg := optional_argument\<rparr>]\<rparr>"
    by (auto simp: AddSwitch_def Let_def split: outcome.splits prod.splits)
  have nf: "\<not> (flag = CHR 0x00 \<and> long_flag = [])"
    using assms(2) Reg_AddSwitch by (simp add: names_a_flag_def)
  note f = add_entry_Returned[OF ae nf]
  show ?thesis
    using f(1-6) by (simp add: S' Reg_AddSwitch code_for_def)
qed

lemma register_all_Cons_Returned:
  "register_all (r # rs) m = Returned m'' \<Longrightarrow>
     \<exists>m'. register r m = Returned m' \<and> register_all rs m' = Returned m''"
  by (auto split: outcome.splits)

lemma register_all_store:
  "register_all rs (S, \<sigma>) = Returned (S', \<sigma>') \<Longrightarrow>
     \<sigma>' a = (case declared_default rs a of Some d \<Rightarrow> d | None \<Rightarrow> \<sigma> a)"
proof (induction rs arbitrary: S \<sigma>)
  case Nil
  then show ?case by simp
next
  case (Cons r rs)
  from register_all_Cons_Returned[OF Cons.prems] obtain S1 \<sigma>1 where
    r: "register r (S, \<sigma>) = Returned (S1, \<sigma>1)" and
    rs: "register_all rs (S1, \<sigma>1) = Returned (S', \<sigma>')"
    by auto
  have "\<sigma>1 = \<sigma>(reg_var r := reg_default r)" by (rule register_Returned(1)[OF r])
  with Cons.IH[OF rs] show ?case
    by (auto split: option.splits)
qed

lemma register_all_grows:
  "register_all rs (S, \<sigma>) = Returned (S', \<sigma>') \<Longrightarrow>
     dom (setters S) \<subseteq> dom (setters S') \<and> long_flags S \<subseteq> long_flags S'"
proof (induction rs arbitrary: S \<sigma>)
  case Nil
  then show ?case by simp
next
  case (Cons r rs)
  from register_all_Cons_Returned[OF Cons.prems] obtain S1 \<sigma>1 where
    r: "register r (S, \<sigma>) = Returned (S1, \<sigma>1)" and
    rs: "register_all rs (S1, \<sigma>1) = Returned (S', \<sigma>')"
    by auto
  from register_Returned(2,3)[OF r] Cons.IH[OF rs] show ?case by blast
qed

lemma char_int_less_256: "char_int c < 256"
proof -
  have "(of_char c :: int) = of_char c mod 256" by simp
  also have "\<dots> < 256" by (rule pos_mod_bound) simp
  finally show ?thesis by (simp add: char_int_def)
qed

lemma register_codes_inv:
  assumes r: "register r (S, \<sigma>) = Returned (S', \<sigma>')" and n: "names_a_flag r"
    and inv: "codes_inv S" and small: "optval S + 1 < 2 ^ 31"
  shows "codes_inv S'"
proof -
  have "256 \<le> optval S" using inv by (simp add: codes_inv_def)
  then have succ: "int_succ (optval S) = optval S + 1" using small by (intro int_succ_small) simp_all
  note f = register_Returned_flagged[OF r n, unfolded succ]
  have fresh: "code_for S r \<notin> dom (setters S)"
    using f inv by (auto simp: code_for_def codes_inv_def)
  have below: "code_for S r < optval S'"
    using f inv char_int_less_256[of "reg_flag r"] by (auto simp: code_for_def codes_inv_def)
  have le: "optval S \<le> optval S'" using f by auto
  have d: "dom (setters S') = insert (code_for S r) (dom (setters S))" using f by simp
  show ?thesis
    unfolding codes_inv_def
  proof (intro conjI)
    show "\<forall>k\<in>dom (setters S'). k < optval S'"
    proof
      fix k assume "k \<in> dom (setters S')"
      then have "k = code_for S r \<or> k \<in> dom (setters S)" using d by blast
      then show "k < optval S'"
      proof
        assume "k = code_for S r" then show ?thesis using below by simp
      next
        assume "k \<in> dom (setters S)"
        then have "k < optval S" using inv unfolding codes_inv_def by blast
        then show ?thesis using le by simp
      qed
    qed
    show "256 \<le> optval S'" using inv le by (simp add: codes_inv_def)
    show "set (map o_val (options S')) \<subseteq> dom (setters S')"
      using f inv by (auto simp: codes_inv_def)
    show "distinct (map o_val (options S'))"
      using f inv fresh by (auto simp: codes_inv_def)
  qed
qed

lemma register_all_codes:
  "register_all rs (S, \<sigma>) = Returned (S', \<sigma>') \<Longrightarrow> list_all names_a_flag rs \<Longrightarrow> codes_inv S \<Longrightarrow>
   optval S + int (length (filter (\<lambda>r. reg_flag r = CHR 0x00) rs)) < 2 ^ 31 \<Longrightarrow>
     map o_val (options S') = map o_val (options S) @ assigned_codes (optval S) rs
     \<and> codes_inv S'
     \<and> optval S' = optval S + int (length (filter (\<lambda>r. reg_flag r = CHR 0x00) rs))"
proof (induction rs arbitrary: S \<sigma>)
  case Nil
  then show ?case by simp
next
  case (Cons r rs)
  from register_all_Cons_Returned[OF Cons.prems(1)] obtain S1 \<sigma>1 where
    r: "register r (S, \<sigma>) = Returned (S1, \<sigma>1)" and
    rs: "register_all rs (S1, \<sigma>1) = Returned (S', \<sigma>')"
    by auto
  have n: "names_a_flag r" and ns: "list_all names_a_flag rs" using Cons.prems(2) by simp_all
  have ge: "256 \<le> optval S" using Cons.prems(3) by (simp add: codes_inv_def)
  show ?case
  proof (cases "reg_flag r = CHR 0x00")
    case True
    have small: "optval S + 1 < 2 ^ 31" using Cons.prems(4) True by simp
    have succ: "int_succ (optval S) = optval S + 1" using ge small by (intro int_succ_small) simp_all
    note f = register_Returned_flagged[OF r n, unfolded succ]
    note inv1 = register_codes_inv[OF r n Cons.prems(3) small]
    have o1: "optval S1 = optval S + 1" using f True by simp
    have b1: "optval S1 + int (length (filter (\<lambda>r. reg_flag r = CHR 0x00) rs)) < 2 ^ 31"
      using Cons.prems(4) True o1 by simp
    from Cons.IH[OF rs ns inv1 b1] f True o1 show ?thesis
      by (simp add: code_for_def)
  next
    case False
    note f = register_Returned_flagged[OF r n]
    have o1: "optval S1 = optval S" using f False by simp
    have "codes_inv S1"
    proof -
      have d: "dom (setters S1) = insert (char_int (reg_flag r)) (dom (setters S))"
        using f False by (simp add: code_for_def)
      have fresh: "char_int (reg_flag r) \<notin> dom (setters S)" using f False by auto
      have lt: "char_int (reg_flag r) < optval S"
        using char_int_less_256[of "reg_flag r"] ge by simp
      show ?thesis
        using Cons.prems(3) f False d fresh lt o1
        by (auto simp: codes_inv_def code_for_def)
    qed
    moreover have "optval S1 + int (length (filter (\<lambda>r. reg_flag r = CHR 0x00) rs)) < 2 ^ 31"
      using Cons.prems(4) False o1 by simp
    ultimately show ?thesis
      using Cons.IH[OF rs ns] f False o1 by (simp add: code_for_def)
  qed
qed

lemma register_duplicate:
  assumes "(reg_flag r \<noteq> CHR 0x00 \<and> setters S (char_int (reg_flag r)) \<noteq> None)
     \<or> (reg_long_flag r \<noteq> [] \<and> reg_long_flag r \<in> long_flags S)"
  shows "\<exists>S'. register r (S, \<sigma>) =
       Thrown (if reg_flag r \<noteq> CHR 0x00 \<and> setters S (char_int (reg_flag r)) \<noteq> None
               then duplicate_flag (reg_flag r) else duplicate_long_flag (reg_long_flag r)) (S', \<sigma>)
     \<and> setters S' = setters S \<and> options S' = options S"
  using assms
  by (cases r) (auto simp: Add_def AddSwitch_def add_entry_def Let_def)

section \<open>Evaluating registrations\<close>

lemmas registration_eval = Add_def AddSwitch_def add_entry_def Let_def Options_new_def char_int_def
  int_succ_def
  required_argument_def optional_argument_def stack_garbage_def constructed_def

lemma example_registered:
  "register_all [verbose_switch, output_flag] (Options_new, store0)
     = Returned (after_example, store0(0 := VBool False, 1 := VString ''out.txt''))"
  by (simp add: verbose_switch_def output_flag_def after_example_def registration_eval)

section \<open>Option codes\<close>

lemma codes_inv_constructed: "codes_inv (constructed h i d)"
  by (simp add: codes_inv_def constructed_def Options_new_def)

text \<open>
  From a freshly constructed object, when every registration names a short or a long flag
  and all return, the codes of the entries are those of the rule (the character of the
  short flag, or else the value of the counter, which starts at 256 and is incremented at
  each such use), and no two entries have the same code.
\<close>

lemma codes_of_named_flags:
  assumes "register_all rs (constructed h i d, \<sigma>0) = Returned (S, \<sigma>)"
    and "list_all names_a_flag rs"
    and "256 + int (length (filter (\<lambda>r. reg_flag r = CHR 0x00) rs)) < 2 ^ 31"
  shows "map o_val (options S) = assigned_codes 256 rs
     \<and> distinct (map o_val (options S))
     \<and> optval S = 256 + int (length (filter (\<lambda>r. reg_flag r = CHR 0x00) rs))"
proof -
  have c: "optval (constructed h i d) = 256" "map o_val (options (constructed h i d)) = []"
    by (simp_all add: constructed_def Options_new_def)
  have b: "optval (constructed h i d) + int (length (filter (\<lambda>r. reg_flag r = CHR 0x00) rs)) < 2 ^ 31"
    using assms(3) by (simp add: c)
  note f = register_all_codes[OF assms(1,2) codes_inv_constructed b, unfolded c]
  have "distinct (map o_val (options S))" using f unfolding codes_inv_def by blast
  moreover have "map o_val (options S) = assigned_codes 256 rs" using f by simp
  moreover have "optval S = 256 + int (length (filter (\<lambda>r. reg_flag r = CHR 0x00) rs))"
    using f by blast
  ultimately show ?thesis by blast
qed

lemma three_registered:
  "register_all [verbose_switch, output_long_only, width_long_only] (constructed [] 2 18, store0)
     = Returned (after_three, store0(0 := VBool False, 1 := VString ''out.txt'', 2 := VUnsigned 8))"
  by (simp add: verbose_switch_def output_long_only_def width_long_only_def after_three_def
      registration_eval)

text \<open>
  C7.  A registration that names neither flag still makes an entry, and its code is not
  that of the rule: \<^verbatim>\<open>add_entry\<close> returns before it assigns \<^verbatim>\<open>opt.val\<close>, the counter is not
  used, and the entry and its setter get the \<^verbatim>\<open>val\<close> that the uninitialised \<^verbatim>\<open>op\<close> holds.
  After the switch \<open>-v\<close> and such a call with \<open>118\<close> in \<^verbatim>\<open>op.val\<close>, both entries have the code
  118 where the rule gives 118 and 256, the counter is still 256, and the setter of \<open>-v\<close>
  has been replaced; for any content of \<^verbatim>\<open>op\<close>, the code of the second entry is its \<^verbatim>\<open>val\<close>.
\<close>

theorem entry_without_flags_shares_a_code:
  "register_all [verbose_switch, nameless_flag] (Options_new, store0)
     = Returned (after_nameless, store0(0 := VBool False, 1 := VString ''d''))
   \<and> map o_val (options after_nameless) = [118, 118]
   \<and> assigned_codes 256 [verbose_switch, nameless_flag] = [118, 256]
   \<and> optval after_nameless = 256
   \<and> setters after_nameless 118 = Some (Set_T T_string 1)
   \<and> register_all [verbose_switch, Reg_Add ws_col op var (CHR 0x00) [] description default_val grp]
        (Options_new, store0)
     = Returned (after_verbose\<lparr>optstr := ''v:'',
                   setters := (setters after_verbose)(o_val op \<mapsto> Set_T (type_of default_val) var),
                   options := options after_verbose @ [op\<lparr>o_has_arg := required_argument\<rparr>]\<rparr>,
                 store0(0 := VBool False, var := default_val))"
proof (intro conjI)
  show "register_all [verbose_switch, nameless_flag] (Options_new, store0)
     = Returned (after_nameless, store0(0 := VBool False, 1 := VString ''d''))"
    by (simp add: verbose_switch_def nameless_flag_def after_nameless_def registration_eval)
  show "map o_val (options after_nameless) = [118, 118]" by (simp add: after_nameless_def)
  show "assigned_codes 256 [verbose_switch, nameless_flag] = [118, 256]"
    by (simp add: verbose_switch_def nameless_flag_def char_int_def)
  show "optval after_nameless = 256" by (simp add: after_nameless_def)
  show "setters after_nameless 118 = Some (Set_T T_string 1)" by (simp add: after_nameless_def)
  have v: "register verbose_switch (Options_new, store0)
      = Returned (after_verbose, store0(0 := VBool False))"
    by (simp add: verbose_switch_def after_verbose_def registration_eval)
  have o: "optstr after_verbose = ''v''" by (simp add: after_verbose_def)
  show "register_all [verbose_switch, Reg_Add ws_col op var (CHR 0x00) [] description default_val grp]
        (Options_new, store0)
     = Returned (after_verbose\<lparr>optstr := ''v:'',
                   setters := (setters after_verbose)(o_val op \<mapsto> Set_T (type_of default_val) var),
                   options := options after_verbose @ [op\<lparr>o_has_arg := required_argument\<rparr>]\<rparr>,
                 store0(0 := VBool False, var := default_val))"
    by (simp add: v Add_def add_entry_no_flags o)
qed

section \<open>Duplicate flags\<close>

text \<open>
  C3.  Once a registration has returned, a later registration that names the same short
  character, or the same long flag, throws: with the message for the short flag when the
  character has a setter, with the message for the long flag otherwise.  The store is as
  it was, so the variable of the second registration is untouched, and so are \<^verbatim>\<open>setters\<close>
  and \<^verbatim>\<open>options\<close>: no setter is bound to it.
\<close>

theorem duplicate_registration_throws:
  assumes "register r1 m0 = Returned m1"
    and "register_all rs m1 = Returned (S, \<sigma>)"
    and "(reg_flag r2 \<noteq> CHR 0x00 \<and> reg_flag r2 = reg_flag r1)
       \<or> (reg_long_flag r2 \<noteq> [] \<and> reg_long_flag r2 = reg_long_flag r1)"
  shows "\<exists>S'. register r2 (S, \<sigma>) =
       Thrown (if reg_flag r2 \<noteq> CHR 0x00 \<and> setters S (char_int (reg_flag r2)) \<noteq> None
               then duplicate_flag (reg_flag r2) else duplicate_long_flag (reg_long_flag r2)) (S', \<sigma>)
     \<and> setters S' = setters S \<and> options S' = options S"
proof -
  obtain S0 \<sigma>0 S1 \<sigma>1 where m: "m0 = (S0, \<sigma>0)" "m1 = (S1, \<sigma>1)"
    by (cases m0, cases m1) auto
  have r1: "register r1 (S0, \<sigma>0) = Returned (S1, \<sigma>1)" using assms(1) m by simp
  have n: "names_a_flag r1" using assms(3) by (auto simp: names_a_flag_def)
  note f = register_Returned_flagged[OF r1 n]
  have g: "dom (setters S1) \<subseteq> dom (setters S)" "long_flags S1 \<subseteq> long_flags S"
    using register_all_grows[of rs S1 \<sigma>1 S \<sigma>] assms(2) m by simp_all
  have "(reg_flag r2 \<noteq> CHR 0x00 \<and> setters S (char_int (reg_flag r2)) \<noteq> None)
     \<or> (reg_long_flag r2 \<noteq> [] \<and> reg_long_flag r2 \<in> long_flags S)"
    using assms(3)
  proof
    assume a: "reg_flag r2 \<noteq> CHR 0x00 \<and> reg_flag r2 = reg_flag r1"
    then have "code_for S0 r1 = char_int (reg_flag r2)" by (auto simp: code_for_def)
    then have "char_int (reg_flag r2) \<in> dom (setters S1)" using f by simp
    then have "char_int (reg_flag r2) \<in> dom (setters S)" using g by blast
    then show ?thesis using a by auto
  next
    assume a: "reg_long_flag r2 \<noteq> [] \<and> reg_long_flag r2 = reg_long_flag r1"
    then have "reg_long_flag r2 \<in> long_flags S1" using f by auto
    then show ?thesis using a g by blast
  qed
  then show ?thesis by (rule register_duplicate)
qed

lemma verbose_registered:
  "register verbose_switch (Options_new, store0) = Returned (after_verbose, store0(0 := VBool False))"
  by (simp add: verbose_switch_def after_verbose_def registration_eval)

theorem duplicate_registration_throws_witness:
  "reg_flag verbose_again \<noteq> CHR 0x00 \<and> reg_flag verbose_again = reg_flag verbose_switch
   \<and> (\<exists>S'. register verbose_again (after_verbose, store0(0 := VBool False)) =
         Thrown (if reg_flag verbose_again \<noteq> CHR 0x00
                    \<and> setters after_verbose (char_int (reg_flag verbose_again)) \<noteq> None
                 then duplicate_flag (reg_flag verbose_again)
                 else duplicate_long_flag (reg_long_flag verbose_again))
           (S', store0(0 := VBool False))
       \<and> setters S' = setters after_verbose \<and> options S' = options after_verbose)"
proof -
  have h: "reg_flag verbose_again \<noteq> CHR 0x00 \<and> reg_flag verbose_again = reg_flag verbose_switch"
    by (simp add: verbose_again_def verbose_switch_def)
  have e: "register_all [] (after_verbose, store0(0 := VBool False))
      = Returned (after_verbose, store0(0 := VBool False))"
    by simp
  from duplicate_registration_throws [OF verbose_registered e disjI1 [OF h]] h
  show ?thesis by blast
qed

section \<open>The default suffix\<close>

text \<open>
  C8, as the code has it.  The suffix is the fixed marker for a \<open>bool\<close>; for an \<open>unsigned\<close>
  it is empty exactly when the default is zero; for a string it is empty exactly when the
  string is empty; for every other type (here \<open>int\<close>) it is always rendered, zero included.
\<close>

theorem default_suffix_by_type:
  "get_default (VBool b) = '' <switch>''
   \<and> (get_default (VUnsigned u) = [] \<longleftrightarrow> u = 0)
   \<and> get_default (VUnsigned u) = (if u = 0 then [] else '' <default: '' @ digits10 (unat u) @ ''>'')
   \<and> (get_default (VString s) = [] \<longleftrightarrow> s = [])
   \<and> get_default (VString s) = (if s = [] then [] else '' <default: '' @ s @ ''>'')
   \<and> get_default (VInt i) = '' <default: '' @ show_int (sint i) @ ''>''
   \<and> get_default (VInt i) \<noteq> []"
  by simp

text \<open>The claim as stated fails for an \<open>int\<close> default of zero: the suffix is rendered.\<close>

theorem int_zero_default_is_rendered:
  "get_default (VInt 0) = '' <default: 0>''"
  by (simp add: show_int_def digits10.simps)

section \<open>A registration that names no flag\<close>

text \<open>
  C4.  \<^verbatim>\<open>add_entry\<close> returns at once when neither flag is given, but \<^verbatim>\<open>Add\<close> and \<^verbatim>\<open>AddSwitch\<close>
  go on: \<^verbatim>\<open>Add\<close> appends a colon to the option string, both assign the default to the
  variable, store a setter under the \<^verbatim>\<open>val\<close> that the uninitialised \<^verbatim>\<open>op\<close> happens to hold,
  and push \<^verbatim>\<open>op\<close> onto \<^verbatim>\<open>options\<close>.
\<close>

theorem registration_without_flags_is_not_a_no_op:
  "Add ws_col op var (CHR 0x00) [] description default_val grp (S, \<sigma>)
     = Returned (S\<lparr>optstr := optstr S @ '':'',
                   setters := (setters S)(o_val op \<mapsto> Set_T (type_of default_val) var),
                   options := options S @ [op\<lparr>o_has_arg := required_argument\<rparr>]\<rparr>,
                 \<sigma>(var := default_val))
   \<and> AddSwitch ws_col op var (CHR 0x00) [] description b grp (S, \<sigma>)
     = Returned (S\<lparr>setters := (setters S)(o_val op \<mapsto> Negate var),
                   options := options S @ [op\<lparr>o_has_arg := optional_argument\<rparr>]\<rparr>,
                 \<sigma>(var := VBool b))"
  by (simp add: Add_def AddSwitch_def add_entry_no_flags)

section \<open>Parsing\<close>

lemma dispatch_fst:
  "fst (dispatch extract st results \<sigma>)
     = list_all (has_setter st) (takeWhile (\<lambda>e. fst e \<noteq> - 1) results)"
  by (induction results arbitrary: \<sigma>) (auto simp: has_setter_def split: option.splits)

lemma dispatch_snd:
  "snd (dispatch extract st results \<sigma>)
     = foldl (invoke extract st) \<sigma>
         (takeWhile (has_setter st) (takeWhile (\<lambda>e. fst e \<noteq> - 1) results))"
  by (induction results arbitrary: \<sigma>)
     (auto simp: has_setter_def invoke_def result_arg_def split: option.splits)

lemma call_setter_other: "setter_var f \<noteq> a \<Longrightarrow> call_setter extract f optarg \<sigma> a = \<sigma> a"
  by (cases f) (auto simp: set_T_def)

lemma foldl_invoke_frame:
  "(\<forall>e \<in> set results. \<forall>f. st (fst e) = Some f \<longrightarrow> setter_var f \<noteq> a) \<Longrightarrow>
     foldl (invoke extract st) \<sigma> results a = \<sigma> a"
proof (induction results arbitrary: \<sigma>)
  case Nil
  then show ?case by simp
next
  case (Cons e results)
  have "invoke extract st \<sigma> e a = \<sigma> a"
    using Cons.prems by (auto simp: invoke_def call_setter_other split: option.splits)
  with Cons show ?case by simp
qed

lemma Parse_eq:
  "Parse scan extract argv (S, \<sigma>) =
     (list_all (has_setter (setters S)) (seen_results scan S argv),
      S\<lparr>options := options S @ [table_end]\<rparr>,
      foldl (invoke extract (setters S)) \<sigma>
        (takeWhile (has_setter (setters S)) (seen_results scan S argv)))"
  by (simp add: Parse_def Let_def case_prod_beta dispatch_fst dispatch_snd seen_results_def)

lemmas scan_eval = getopt_long_def c_str_def scan_ordering_def scan_optstring_def
  process_long_option_def find_long_def long_table_def option_name_def short_option_def
  missing_argument_def char_int_def table_end_def Let_def

text \<open>
  What the setters do with the results they are invoked for.  A value flag: the variable
  holds the text of the last result for it (a string), or what the extraction makes of
  that text, when no later setter writes the variable.  A switch: when only negations
  write the variable, its value after the results is its value before, negated once for
  each result of the switch, so that the parity of their number decides.
\<close>

lemma invoke_value_flag:
  "st ch = Some (Set_T T var) \<Longrightarrow>
     invoke extract st \<sigma> (ch, optarg) var
       = (if T = T_string then VString (result_arg (ch, optarg))
          else extract T (result_arg (ch, optarg)) (\<sigma> var))"
  by (simp add: invoke_def set_T_def)

lemma last_value_wins:
  assumes "st ch = Some (Set_T T var)"
    and "\<forall>e \<in> set later. \<forall>f. st (fst e) = Some f \<longrightarrow> setter_var f \<noteq> var"
  shows "foldl (invoke extract st) \<sigma> (earlier @ [(ch, optarg)] @ later) var
       = (if T = T_string then VString (result_arg (ch, optarg))
          else extract T (result_arg (ch, optarg)) (foldl (invoke extract st) \<sigma> earlier var))"
proof -
  have "foldl (invoke extract st) \<sigma> (earlier @ [(ch, optarg)] @ later) var
      = foldl (invoke extract st)
          (invoke extract st (foldl (invoke extract st) \<sigma> earlier) (ch, optarg)) later var"
    by simp
  also have "\<dots> = invoke extract st (foldl (invoke extract st) \<sigma> earlier) (ch, optarg) var"
    by (rule foldl_invoke_frame[OF assms(2)])
  also have "\<dots> = (if T = T_string then VString (result_arg (ch, optarg))
          else extract T (result_arg (ch, optarg)) (foldl (invoke extract st) \<sigma> earlier var))"
    using assms(1) by (simp add: invoke_value_flag)
  finally show ?thesis .
qed

lemma switch_parity:
  assumes "\<forall>e \<in> set results. \<forall>f. st (fst e) = Some f \<longrightarrow> setter_var f = var \<longrightarrow> f = Negate var"
  shows "foldl (invoke extract st) (\<sigma>(var := VBool b)) results var
       = VBool (b \<noteq> odd (length (filter (\<lambda>e. st (fst e) = Some (Negate var)) results)))"
  using assms
proof (induction results arbitrary: \<sigma> b)
  case Nil
  then show ?case by simp
next
  case (Cons e results)
  have rest: "\<forall>e \<in> set results. \<forall>f. st (fst e) = Some f \<longrightarrow> setter_var f = var \<longrightarrow> f = Negate var"
    using Cons.prems by simp
  show ?case
  proof (cases "st (fst e) = Some (Negate var)")
    case True
    then have step: "invoke extract st (\<sigma>(var := VBool b)) e = \<sigma>(var := VBool (\<not> b))"
      by (simp add: invoke_def as_bool_def)
    have ih: "foldl (invoke extract st) (\<sigma>(var := VBool (\<not> b))) results var
       = VBool ((\<not> b) \<noteq> odd (length (filter (\<lambda>e. st (fst e) = Some (Negate var)) results)))"
      by (rule Cons.IH[OF rest])
    have "foldl (invoke extract st) (\<sigma>(var := VBool b)) (e # results) var
       = foldl (invoke extract st) (invoke extract st (\<sigma>(var := VBool b)) e) results var"
      by (simp only: foldl_Cons)
    also have "\<dots> = foldl (invoke extract st) (\<sigma>(var := VBool (\<not> b))) results var"
      by (simp only: step)
    also have "\<dots> = VBool ((\<not> b) \<noteq> odd (length (filter (\<lambda>e. st (fst e) = Some (Negate var)) results)))"
      by (rule ih)
    also have "\<dots> = VBool (b \<noteq> odd (length (filter (\<lambda>e. st (fst e) = Some (Negate var)) (e # results))))"
      using True by simp
    finally show ?thesis .
  next
    case False
    have "invoke extract st (\<sigma>(var := VBool b)) e var = VBool b"
    proof (cases "st (fst e)")
      case None
      then show ?thesis by (simp add: invoke_def)
    next
      case (Some f)
      with Cons.prems False have "setter_var f \<noteq> var" by auto
      with Some show ?thesis by (simp add: invoke_def call_setter_other)
    qed
    then have step: "invoke extract st (\<sigma>(var := VBool b)) e
        = (invoke extract st (\<sigma>(var := VBool b)) e)(var := VBool b)"
      by (simp add: fun_eq_iff)
    have ih: "foldl (invoke extract st) ((invoke extract st (\<sigma>(var := VBool b)) e)(var := VBool b))
         results var
       = VBool (b \<noteq> odd (length (filter (\<lambda>e. st (fst e) = Some (Negate var)) results)))"
      by (rule Cons.IH[OF rest])
    have "foldl (invoke extract st) (\<sigma>(var := VBool b)) (e # results) var
       = foldl (invoke extract st) (invoke extract st (\<sigma>(var := VBool b)) e) results var"
      by (simp only: foldl_Cons)
    also have "\<dots> = foldl (invoke extract st)
           ((invoke extract st (\<sigma>(var := VBool b)) e)(var := VBool b)) results var"
      using step by simp
    also have "\<dots> = VBool (b \<noteq> odd (length (filter (\<lambda>e. st (fst e) = Some (Negate var)) results)))"
      by (rule ih)
    also have "\<dots> = VBool (b \<noteq> odd (length (filter (\<lambda>e. st (fst e) = Some (Negate var)) (e # results))))"
      using False by simp
    finally show ?thesis .
  qed
qed










section \<open>The colon that \<^verbatim>\<open>Add\<close> appends\<close>

text \<open>
  \<^verbatim>\<open>Add\<close> appends \<open>:\<close> to the option string whether or not \<^verbatim>\<open>add_entry\<close> appended a short
  flag.  After a switch \<open>-v\<close> and a value flag that has only a long name the option string
  is \<open>v:\<close>, which tells the scanner that \<open>-v\<close> takes an argument.
\<close>

lemma long_only_registered:
  "register_all [verbose_switch, output_long_only] (Options_new, store0)
     = Returned (after_long_only, store0(0 := VBool False, 1 := VString ''out.txt''))"
  by (simp add: verbose_switch_def output_long_only_def after_long_only_def registration_eval)

text \<open>
  C1.  With these two registrations, \<open>-v --output=result.txt\<close> gives \<open>--output=result.txt\<close>
  to \<open>-v\<close> as its argument: \<^verbatim>\<open>Parse\<close> returns \<open>True\<close>, the switch is negated, and the string
  variable keeps its default.
\<close>

theorem value_flag_swallowed_by_switch:
  "register_all [verbose_switch, output_long_only] (Options_new, store0)
     = Returned (after_long_only, store0(0 := VBool False, 1 := VString ''out.txt''))
   \<and> Parse getopt_long keep_value [''prog'', ''-v'', ''--output=result.txt'']
        (after_long_only, store0(0 := VBool False, 1 := VString ''out.txt''))
      = (True, after_long_only\<lparr>options := options after_long_only @ [table_end]\<rparr>,
         store0(0 := VBool True, 1 := VString ''out.txt''))"
proof
  show "register_all [verbose_switch, output_long_only] (Options_new, store0)
     = Returned (after_long_only, store0(0 := VBool False, 1 := VString ''out.txt''))"
    by (rule long_only_registered)
  have g: "seen_results getopt_long after_long_only [''prog'', ''-v'', ''--output=result.txt'']
       = [(118, Some ''--output=result.txt'')]"
    by (simp add: seen_results_def scan_eval after_long_only_def)
  have s: "setters after_long_only 118 = Some (Negate 0)" by (simp add: after_long_only_def)
  show "Parse getopt_long keep_value [''prog'', ''-v'', ''--output=result.txt'']
        (after_long_only, store0(0 := VBool False, 1 := VString ''out.txt''))
      = (True, after_long_only\<lparr>options := options after_long_only @ [table_end]\<rparr>,
         store0(0 := VBool True, 1 := VString ''out.txt''))"
    unfolding Parse_eq g
    by (simp add: has_setter_def invoke_def s result_arg_def as_bool_def fun_eq_iff)
qed

text \<open>
  C6.  With the same registrations, \<open>-v -v\<close> negates the switch once: the second \<open>-v\<close> is
  taken as the argument of the first, and the variable ends \<open>True\<close> after two occurrences.
\<close>

theorem switch_given_twice_negated_once:
  "optstr after_long_only = ''v:''
   \<and> seen_results getopt_long after_long_only [''prog'', ''-v'', ''-v''] = [(118, Some ''-v'')]
   \<and> Parse getopt_long keep_value [''prog'', ''-v'', ''-v'']
        (after_long_only, store0(0 := VBool False, 1 := VString ''out.txt''))
      = (True, after_long_only\<lparr>options := options after_long_only @ [table_end]\<rparr>,
         store0(0 := VBool True, 1 := VString ''out.txt''))"
proof (intro conjI)
  show "optstr after_long_only = ''v:''" by (simp add: after_long_only_def)
  show g: "seen_results getopt_long after_long_only [''prog'', ''-v'', ''-v''] = [(118, Some ''-v'')]"
    by (simp add: seen_results_def scan_eval after_long_only_def)
  have s: "setters after_long_only 118 = Some (Negate 0)" by (simp add: after_long_only_def)
  show "Parse getopt_long keep_value [''prog'', ''-v'', ''-v'']
        (after_long_only, store0(0 := VBool False, 1 := VString ''out.txt''))
      = (True, after_long_only\<lparr>options := options after_long_only @ [table_end]\<rparr>,
         store0(0 := VBool True, 1 := VString ''out.txt''))"
    unfolding Parse_eq g
    by (simp add: has_setter_def invoke_def s result_arg_def as_bool_def fun_eq_iff)
qed

text \<open>With the short flag \<open>-o\<close> given, the example of the specification parses as expected.\<close>

lemma example_parsed:
  "Parse getopt_long keep_value [''prog'', ''-v'', ''--output=result.txt'']
        (after_example, store0(0 := VBool False, 1 := VString ''out.txt''))
      = (True, after_example\<lparr>options := options after_example @ [table_end]\<rparr>,
         store0(0 := VBool True, 1 := VString ''result.txt''))"
proof -
  have g: "seen_results getopt_long after_example [''prog'', ''-v'', ''--output=result.txt'']
       = [(118, None), (111, Some ''result.txt'')]"
    by (simp add: seen_results_def scan_eval after_example_def)
  have s: "setters after_example 118 = Some (Negate 0)"
    "setters after_example 111 = Some (Set_T T_string 1)"
    by (simp_all add: after_example_def)
  show ?thesis
    unfolding Parse_eq g
    by (simp add: has_setter_def invoke_def s result_arg_def as_bool_def set_T_def fun_eq_iff)
qed

section \<open>The usage table\<close>

lemma usage_push_keys: "set (map fst (usage_push g b u)) = insert g (set (map fst u))"
proof (induction u)
  case Nil
  then show ?case by simp
next
  case (Cons p u)
  obtain k ds where p: "p = (k, ds)" by (cases p)
  have "set (map fst (usage_push g b (p # u))) =
      (if g = k then insert k (set (map fst u))
       else if g < k then insert g (insert k (set (map fst u)))
       else insert k (set (map fst (usage_push g b u))))"
    by (simp add: p)
  also have "\<dots> = insert g (set (map fst (p # u)))"
    using Cons.IH by (auto simp: p)
  finally show ?case .
qed

lemma usage_push_sorted:
  "sorted_wrt (<) (map fst u) \<Longrightarrow> sorted_wrt (<) (map fst (usage_push g b u))"
proof (induction u)
  case Nil
  then show ?case by simp
next
  case (Cons p u)
  obtain k ds where p: "p = (k, ds)" by (cases p)
  show ?case
  proof (cases "g = k")
    case True
    with Cons.prems p show ?thesis by simp
  next
    case False
    show ?thesis
    proof (cases "g < k")
      case True
      with Cons.prems p False show ?thesis by auto
    next
      case ge: False
      with False have kg: "k < g" by simp
      have "\<forall>x \<in> set (map fst (usage_push g b u)). k < x"
        using Cons.prems p kg by (auto simp: usage_push_keys simp del: set_map)
      with Cons p False ge show ?thesis by simp
    qed
  qed
qed

lemma usage_push_nonempty:
  "list_all (\<lambda>p. snd p \<noteq> []) u \<Longrightarrow> list_all (\<lambda>p. snd p \<noteq> []) (usage_push g b u)"
  by (induction u) auto

lemma group_blocks_push:
  "sorted_wrt (<) (map fst u) \<Longrightarrow>
     group_blocks (usage_push g b u) g' = (if g' = g then group_blocks u g @ [b] else group_blocks u g')"
proof (induction u)
  case Nil
  then show ?case by (simp add: group_blocks_def)
next
  case (Cons p u)
  obtain k ds where p: "p = (k, ds)" by (cases p)
  have ih: "group_blocks (usage_push g b u) g' = (if g' = g then group_blocks u g @ [b] else group_blocks u g')"
    using Cons by simp
  show ?case
  proof (cases "g = k")
    case True
    with p show ?thesis by (simp add: group_blocks_def)
  next
    case False
    show ?thesis
    proof (cases "g < k")
      case True
      have "g \<notin> set (map fst u)" using Cons.prems p True by auto
      then have "map_of u g = None" by (simp add: map_of_eq_None_iff)
      with p False True show ?thesis by (simp add: group_blocks_def)
    next
      case ge: False
      have "group_blocks (usage_push g b (p # u)) g' = group_blocks ((k, ds) # usage_push g b u) g'"
        using p False ge by simp
      also have "\<dots> = (if g' = k then ds else group_blocks (usage_push g b u) g')"
        by (simp add: group_blocks_def)
      also have "\<dots> = (if g' = g then group_blocks (p # u) g @ [b] else group_blocks (p # u) g')"
        using False ih unfolding group_blocks_def p by auto
      finally show ?thesis .
    qed
  qed
qed

lemma group_blocks_keys:
  "list_all (\<lambda>p. snd p \<noteq> []) u \<Longrightarrow> (g \<in> set (map fst u)) = (group_blocks u g \<noteq> [])"
proof (induction u)
  case Nil
  then show ?case by (simp add: group_blocks_def)
next
  case (Cons p u)
  obtain k ds where p: "p = (k, ds)" by (cases p)
  with Cons show ?case by (auto simp: group_blocks_def)
qed

lemma usage_block_switch:
  "usage_block S ws_col flag long_flag (VBool b) description
     = usage_block S ws_col flag long_flag (VBool False) description"
  by (simp add: usage_block_def)

lemma padded_label_indents:
  "IndentFlag S' = IndentFlag S \<Longrightarrow> IndentDescription S' = IndentDescription S \<Longrightarrow>
     padded_label S' flag long_flag = padded_label S flag long_flag"
  by (simp add: padded_label_def flag_label_def)

lemma desc_pos_indents:
  "IndentFlag S' = IndentFlag S \<Longrightarrow> desc_pos S' width len = desc_pos S width len"
  by (simp add: desc_pos_def)

lemma usage_block_indents:
  assumes "IndentFlag S' = IndentFlag S" and "IndentDescription S' = IndentDescription S"
  shows "usage_block S' ws_col flag long_flag default_val description
       = usage_block S ws_col flag long_flag default_val description"
  unfolding usage_block_def column_width_def
    padded_label_indents[OF assms] desc_pos_indents[OF assms(1)] assms(1) ..

lemma reg_block_indents:
  "IndentFlag S' = IndentFlag S \<Longrightarrow> IndentDescription S' = IndentDescription S \<Longrightarrow>
     reg_block S' r = reg_block S r"
  by (cases r) (simp_all add: usage_block_indents[of S' S])

lemma add_entry_usage:
  assumes "add_entry ws_col opt flag long_flag default_val description grp S = Returned (S', opt')"
  shows "(if \<not> (flag = CHR 0x00 \<and> long_flag = []) \<and> description \<noteq> []
         then \<exists>b. usage_block S ws_col flag long_flag default_val description = Some b
                \<and> usage S' = usage_push grp b (usage S)
         else usage S' = usage S)
    \<and> IndentFlag S' = IndentFlag S \<and> IndentDescription S' = IndentDescription S
    \<and> Header S' = Header S"
proof (cases "flag = CHR 0x00 \<and> long_flag = []")
  case True
  with assms show ?thesis by (simp add: add_entry_def)
next
  case False
  define S1 where "S1 = (if flag \<noteq> CHR 0x00 then S\<lparr>optstr := optstr S @ [flag]\<rparr>
                  else S\<lparr>optval := int_succ (optval S)\<rparr>)"
  define S2 where "S2 = (if long_flag \<noteq> []
                    then S1\<lparr>long_flags := insert long_flag (long_flags S1)\<rparr> else S1)"
  have i: "IndentFlag S2 = IndentFlag S" "IndentDescription S2 = IndentDescription S"
    "Header S2 = Header S" "usage S2 = usage S"
    by (simp_all add: S1_def S2_def)
  have ub: "usage_block S2 ws_col flag long_flag default_val description
      = usage_block S ws_col flag long_flag default_val description"
    by (rule usage_block_indents[OF i(1,2)])
  show ?thesis
  proof (cases "description = []")
    case True
    with assms False have "S' = S2"
      by (auto simp: add_entry_def Let_def S1_def S2_def split: if_splits)
    with True i show ?thesis by simp
  next
    case d: False
    with assms False obtain b where
      b: "usage_block S2 ws_col flag long_flag default_val description = Some b"
      and S': "S' = S2\<lparr>usage := usage_push grp b (usage S2)\<rparr>"
      by (auto simp: add_entry_def Let_def S1_def S2_def split: if_splits option.splits)
    have "usage_block S ws_col flag long_flag default_val description = Some b"
      using b ub by simp
    with d False i S' show ?thesis by simp
  qed
qed

lemma register_usage:
  assumes "register r (S, \<sigma>) = Returned (S', \<sigma>')"
  shows "(if described r
          then \<exists>b. reg_block S r = Some b \<and> usage S' = usage_push (reg_group r) b (usage S)
          else usage S' = usage S)
       \<and> IndentFlag S' = IndentFlag S \<and> IndentDescription S' = IndentDescription S
       \<and> Header S' = Header S"
proof (cases r)
  case (Reg_Add ws_col op var flag long_flag description default_val grp)
  with assms obtain S1 op1 where
    ae: "add_entry ws_col op flag long_flag default_val description grp S = Returned (S1, op1)"
    and S': "usage S' = usage S1" "IndentFlag S' = IndentFlag S1"
      "IndentDescription S' = IndentDescription S1" "Header S' = Header S1"
    by (auto simp: Add_def Let_def split: outcome.splits prod.splits)
  from add_entry_usage[OF ae] S' show ?thesis
    by (simp add: Reg_Add described_def names_a_flag_def)
next
  case (Reg_AddSwitch ws_col op var flag long_flag description default_val grp)
  with assms obtain S1 op1 where
    ae: "add_entry ws_col op flag long_flag (VBool (as_bool (\<sigma> var))) description grp S = Returned (S1, op1)"
    and S': "usage S' = usage S1" "IndentFlag S' = IndentFlag S1"
      "IndentDescription S' = IndentDescription S1" "Header S' = Header S1"
    by (auto simp: AddSwitch_def Let_def split: outcome.splits prod.splits)
  from add_entry_usage[OF ae,
      unfolded usage_block_switch[of S ws_col flag long_flag "as_bool (\<sigma> var)" description]] S'
  show ?thesis
    by (simp add: Reg_AddSwitch described_def names_a_flag_def)
qed

lemma register_all_usage:
  "register_all rs (S, \<sigma>) = Returned (S', \<sigma>') \<Longrightarrow> usage_inv (usage S) \<Longrightarrow>
     usage_inv (usage S') \<and> Header S' = Header S
     \<and> (\<forall>g. map Some (group_blocks (usage S') g)
            = map Some (group_blocks (usage S) g)
              @ map (reg_block S) (filter (\<lambda>r. described r \<and> reg_group r = g) rs))"
proof (induction rs arbitrary: S \<sigma>)
  case Nil
  then show ?case by simp
next
  case (Cons r rs)
  from register_all_Cons_Returned[OF Cons.prems(1)] obtain S1 \<sigma>1 where
    r: "register r (S, \<sigma>) = Returned (S1, \<sigma>1)" and
    rs: "register_all rs (S1, \<sigma>1) = Returned (S', \<sigma>')"
    by auto
  note u = register_usage[OF r]
  have srt: "sorted_wrt (<) (map fst (usage S))" and ne: "list_all (\<lambda>p. snd p \<noteq> []) (usage S)"
    using Cons.prems(2) by (simp_all add: usage_inv_def)
  have inv1: "usage_inv (usage S1)"
  proof (cases "described r")
    case True
    with u obtain b where "usage S1 = usage_push (reg_group r) b (usage S)" by auto
    then show ?thesis
      using usage_push_sorted[OF srt] usage_push_nonempty[OF ne] by (simp add: usage_inv_def)
  next
    case False
    with u Cons.prems(2) show ?thesis by simp
  qed
  have blk: "\<And>r'. reg_block S1 r' = reg_block S r'"
    using u by (simp add: reg_block_indents[of S1 S])
  have step: "map Some (group_blocks (usage S1) g)
       = map Some (group_blocks (usage S) g)
         @ map (reg_block S) (filter (\<lambda>r. described r \<and> reg_group r = g) [r])" for g
  proof (cases "described r")
    case True
    with u obtain b where b: "reg_block S r = Some b"
      and "usage S1 = usage_push (reg_group r) b (usage S)" by auto
    then show ?thesis
      using True by (simp add: group_blocks_push[OF srt])
  next
    case False
    with u show ?thesis by simp
  qed
  from Cons.IH[OF rs inv1] have
    a: "usage_inv (usage S')" and h: "Header S' = Header S1" and
    b: "\<And>g. map Some (group_blocks (usage S') g)
            = map Some (group_blocks (usage S1) g)
              @ map (reg_block S1) (filter (\<lambda>r. described r \<and> reg_group r = g) rs)"
    by auto
  show ?case
  proof (intro conjI allI)
    show "usage_inv (usage S')" by (rule a)
    show "Header S' = Header S" using h u by simp
    fix g
    show "map Some (group_blocks (usage S') g)
            = map Some (group_blocks (usage S) g)
              @ map (reg_block S) (filter (\<lambda>r. described r \<and> reg_group r = g) (r # rs))"
      unfolding b[of g] step[of g] blk by simp
  qed
qed

section \<open>Evaluating usage blocks\<close>

lemma replicate_numeral: "replicate (numeral k) x = x # replicate (pred_numeral k) x"
  by (simp add: numeral_eq_Suc)

lemma usage_block_eval:
  assumes "padded_label S flag long_flag = ss" and "length ss = n"
    and "word_of_int (tty_width ws_col) = w" and "desc_pos S w n = dp" and "w - dp = cw"
    and "wrap_loop (description @ get_default default_val) cw dp 0
           (if dp = IndentFlag S + 2 then ss @ [CHR 0x0A] else ss) = r"
  shows "usage_block S ws_col flag long_flag default_val description = r"
  unfolding usage_block_def column_width_def Let_def assms(1) assms(2) assms(3) assms(4) assms(5)
  by (rule assms(6))

lemmas label_eval = padded_label_def flag_label_def Let_def replicate_numeral

lemmas desc_pos_eval = desc_pos_def float_gt_30_percent_def round24_def bitlen.simps
  size_t_sub_def Let_def

lemmas wrap_eval = wrap_loop.simps int_to_size_t_def skip_spaces.simps Let_def replicate_numeral

lemma block_first:
  assumes "IndentFlag S = 2" and "IndentDescription S = 18"
  shows "usage_block S 80 CHR ''x'' ''xray'' (VString []) ''first'' = Some ''  -x --xray       first''"
proof (rule usage_block_eval[where ss = "''  -x --xray       ''" and n = 18 and w = 80 and dp = 18 and cw = 62])
  show "padded_label S CHR ''x'' ''xray'' = ''  -x --xray       ''"
    by (simp add: assms label_eval)
  show "length ''  -x --xray       '' = 18" by simp
  show "word_of_int (tty_width 80) = (80 :: 32 word)" by (simp add: tty_width_def)
  show "desc_pos S 80 18 = 18" by (simp add: desc_pos_eval)
  show "(80 :: 32 word) - 18 = 62" by simp
  show "wrap_loop (''first'' @ get_default (VString [])) 62 18 0
     (if 18 = IndentFlag S + 2 then ''  -x --xray       '' @ [CHR 0x0A] else ''  -x --xray       '')
     = Some ''  -x --xray       first''"
    by (simp add: assms wrap_eval)
qed

lemma block_second:
  assumes "IndentFlag S = 2" and "IndentDescription S = 18"
  shows "usage_block S 80 CHR ''y'' ''yank'' (VString []) ''second'' = Some ''  -y --yank       second''"
proof (rule usage_block_eval[where ss = "''  -y --yank       ''" and n = 18 and w = 80 and dp = 18 and cw = 62])
  show "padded_label S CHR ''y'' ''yank'' = ''  -y --yank       ''"
    by (simp add: assms label_eval)
  show "length ''  -y --yank       '' = 18" by simp
  show "word_of_int (tty_width 80) = (80 :: 32 word)" by (simp add: tty_width_def)
  show "desc_pos S 80 18 = 18" by (simp add: desc_pos_eval)
  show "(80 :: 32 word) - 18 = 62" by simp
  show "wrap_loop (''second'' @ get_default (VString [])) 62 18 0
     (if 18 = IndentFlag S + 2 then ''  -y --yank       '' @ [CHR 0x0A] else ''  -y --yank       '')
     = Some ''  -y --yank       second''"
    by (simp add: assms wrap_eval)
qed

lemma two_groups_registered:
  "register_all [first_in_b, then_in_a] (constructed [] 2 18, store0)
     = Returned (after_two_groups, store0(0 := VString [], 1 := VString []))"
  by (simp add: first_in_b_def then_in_a_def after_two_groups_def registration_eval
      block_first block_second)

lemma usage_two_groups:
  "Usage after_two_groups =
     ''a:'' @ [CHR 0x0A] @ ''  -y --yank       second'' @ [CHR 0x0A] @ [CHR 0x0A]
     @ ''b:'' @ [CHR 0x0A] @ ''  -x --xray       first'' @ [CHR 0x0A] @ [CHR 0x0A]"
  by (simp add: Usage_def usage_section_def after_two_groups_def)

section \<open>The usage text\<close>

text \<open>
  C5, as the code has it.  \<^verbatim>\<open>Usage\<close> emits the header when it is not empty, then one section
  for each key of the usage table in the order of the table.  After registrations from a
  fresh object the keys are in strictly ascending order (the order of \<^verbatim>\<open>std::map\<close>, not that
  of registration); a group has a section exactly when a registration that names a flag
  and has a description is in it; and the blocks of a group are those of its
  registrations, in registration order.  A section is the group name and a colon on a
  line (not for the empty group and \<open>_\<close>), each block on a line, and an empty line.
\<close>

theorem usage_sections_in_key_order:
  assumes "register_all rs (constructed h i d, \<sigma>0) = Returned (S, \<sigma>)"
  shows "Usage S = (if h \<noteq> [] then h else []) @ concat (map usage_section (usage S))
     \<and> sorted_wrt (<) (map fst (usage S))
     \<and> (\<forall>g. (g \<in> set (map fst (usage S))) = (\<exists>r \<in> set rs. described r \<and> reg_group r = g))
     \<and> (\<forall>g. map Some (group_blocks (usage S) g)
            = map (reg_block (constructed h i d)) (filter (\<lambda>r. described r \<and> reg_group r = g) rs))
     \<and> usage_section (g, ds) =
         (if g \<noteq> [] \<and> g \<noteq> ''_'' then g @ '':'' @ [CHR 0x0A] else [])
         @ concat (map (\<lambda>block. block @ [CHR 0x0A]) ds) @ [CHR 0x0A]"
proof -
  have u0: "usage (constructed h i d) = []" "Header (constructed h i d) = h"
    by (simp_all add: constructed_def Options_new_def)
  have inv0: "usage_inv (usage (constructed h i d))" by (simp add: u0 usage_inv_def)
  from register_all_usage[OF assms inv0] have
    inv: "usage_inv (usage S)" and hd: "Header S = h" and
    blocks: "\<And>g. map Some (group_blocks (usage S) g)
            = map (reg_block (constructed h i d)) (filter (\<lambda>r. described r \<and> reg_group r = g) rs)"
    by (simp_all add: u0 group_blocks_def)
  have keys: "(g \<in> set (map fst (usage S))) = (\<exists>r \<in> set rs. described r \<and> reg_group r = g)" for g
  proof -
    have "(g \<in> set (map fst (usage S))) = (group_blocks (usage S) g \<noteq> [])"
      using inv group_blocks_keys[of "usage S" g] by (simp add: usage_inv_def)
    also have "\<dots> = (map Some (group_blocks (usage S) g) \<noteq> [])" by simp
    also have "\<dots> = (filter (\<lambda>r. described r \<and> reg_group r = g) rs \<noteq> [])"
      unfolding blocks by simp
    also have "\<dots> = (\<exists>r \<in> set rs. described r \<and> reg_group r = g)"
      by (simp add: filter_empty_conv)
    finally show ?thesis .
  qed
  show ?thesis
    using inv hd blocks keys by (simp add: Usage_def usage_inv_def usage_section_def)
qed

theorem usage_sections_in_key_order_witness:
  "register_all [first_in_b, then_in_a] (constructed [] 2 18, store0)
     = Returned (after_two_groups, store0(0 := VString [], 1 := VString []))
   \<and> sorted_wrt (<) (map fst (usage after_two_groups))
   \<and> map fst (usage after_two_groups) = [''a'', ''b'']
   \<and> Usage after_two_groups = concat (map usage_section (usage after_two_groups))"
proof -
  note t = usage_sections_in_key_order [OF two_groups_registered, of "[]" "[]"]
  have a: "sorted_wrt (<) (map fst (usage after_two_groups))" using t by blast
  have b: "Usage after_two_groups = concat (map usage_section (usage after_two_groups))"
    using t by simp
  have c: "map fst (usage after_two_groups) = [''a'', ''b'']" by (simp add: after_two_groups_def)
  show ?thesis using two_groups_registered a b c by blast
qed

text \<open>
  The claim as stated fails: group \<open>b\<close> is registered first and group \<open>a\<close> second, and the
  usage text has the section of \<open>a\<close> first.
\<close>

theorem usage_sections_not_in_registration_order:
  "register_all [first_in_b, then_in_a] (Options_new, store0)
     = Returned (after_two_groups, store0(0 := VString [], 1 := VString []))
   \<and> map reg_group [first_in_b, then_in_a] = [''b'', ''a'']
   \<and> Usage after_two_groups =
     ''a:'' @ [CHR 0x0A] @ ''  -y --yank       second'' @ [CHR 0x0A] @ [CHR 0x0A]
     @ ''b:'' @ [CHR 0x0A] @ ''  -x --xray       first'' @ [CHR 0x0A] @ [CHR 0x0A]"
proof (intro conjI)
  have "constructed [] 2 18 = Options_new" by (simp add: constructed_def Options_new_def)
  with two_groups_registered
  show "register_all [first_in_b, then_in_a] (Options_new, store0)
     = Returned (after_two_groups, store0(0 := VString [], 1 := VString []))"
    by simp
  show "map reg_group [first_in_b, then_in_a] = [''b'', ''a'']"
    by (simp add: first_in_b_def then_in_a_def)
  show "Usage after_two_groups =
     ''a:'' @ [CHR 0x0A] @ ''  -y --yank       second'' @ [CHR 0x0A] @ [CHR 0x0A]
     @ ''b:'' @ [CHR 0x0A] @ ''  -x --xray       first'' @ [CHR 0x0A] @ [CHR 0x0A]"
    by (rule usage_two_groups)
qed

section \<open>The wrapping loop\<close>

text \<open>
  When the column width is positive and the description is shorter than \<open>2\<^sup>3\<^sup>1\<close> minus the
  column width, no \<^verbatim>\<open>int\<close> of the loop overflows: the loop ends, and what it appends is the
  list of lines \<open>wrap_lines\<close>, joined by a newline and the indentation \<^verbatim>\<open>desc_pos\<close>.  No line
  is longer than the column width, and no line starts with a space.
\<close>

lemma skip_spaces_ge: "i \<le> skip_spaces d i"
proof (induction d i rule: skip_spaces.induct)
  case (1 d i)
  show ?case
  proof (cases "i < length d \<and> d ! i = CHR '' ''")
    case True
    with 1 have "Suc i \<le> skip_spaces d (Suc i)" by simp
    with True show ?thesis by (subst skip_spaces.simps) auto
  next
    case False
    then show ?thesis by (subst skip_spaces.simps) auto
  qed
qed

lemma skip_spaces_le: "i \<le> length d \<Longrightarrow> skip_spaces d i \<le> length d"
proof (induction d i rule: skip_spaces.induct)
  case (1 d i)
  show ?case
  proof (cases "i < length d \<and> d ! i = CHR '' ''")
    case True
    with 1 have "skip_spaces d (Suc i) \<le> length d" by simp
    with True show ?thesis by (subst skip_spaces.simps) auto
  next
    case False
    with 1 show ?thesis by (subst skip_spaces.simps) auto
  qed
qed

lemma skip_spaces_stops:
  "skip_spaces d i < length d \<Longrightarrow> d ! skip_spaces d i \<noteq> CHR '' ''"
proof (induction d i rule: skip_spaces.induct)
  case (1 d i)
  show ?case
  proof (cases "i < length d \<and> d ! i = CHR '' ''")
    case True
    then have e: "skip_spaces d i = skip_spaces d (Suc i)" by (subst skip_spaces.simps) auto
    with 1 True show ?thesis by simp
  next
    case False
    then have e: "skip_spaces d i = i" by (subst skip_spaces.simps) auto
    with 1 False show ?thesis by simp
  qed
qed

lemma wrap_lines_nonempty: "k < length desc \<Longrightarrow> 0 < c \<Longrightarrow> wrap_lines desc c k \<noteq> []"
  by (subst wrap_lines.simps) (simp add: Let_def)

lemma join_lines_Cons:
  "ls \<noteq> [] \<Longrightarrow> join_lines dp (l # ls) = l @ [CHR 0x0A] @ replicate dp CHR '' '' @ join_lines dp ls"
  by (cases ls) simp_all

lemma unat_small: "n < 2 ^ 32 \<Longrightarrow> unat (word_of_nat n :: 32 word) = n"
  by (simp add: unat_of_nat)

lemma int_to_size_t_small: "n < 2 ^ 31 \<Longrightarrow> int_to_size_t (word_of_nat n) = n"
proof -
  assume n: "n < 2 ^ 31"
  have "sint (word_of_nat n :: 32 word) = signed_take_bit 31 (int n)"
    by (simp add: signed_of_nat)
  also have "\<dots> = int n"
    using n by (simp add: signed_take_bit_int_eq_self)
  finally have s: "sint (word_of_nat n :: 32 word) = int n" .
  have "int n < 2 ^ 64" using n by simp
  then have "int n mod 2 ^ 64 = int n" by simp
  then show ?thesis by (simp add: int_to_size_t_def s)
qed

lemma word_of_nat_plus: "(word_of_nat j :: 32 word) + cw = word_of_nat (j + unat cw)"
  by simp

lemma wrap_loop_lines:
  assumes "0 < unat cw" and "length desc + unat cw < 2 ^ 31" and "k \<le> length desc + unat cw"
  shows "wrap_loop desc cw dp (word_of_nat k) ss
       = Some (ss @ join_lines (unat dp) (wrap_lines desc (unat cw) k))"
  using assms(2) assms(3)
proof (induction desc "unat cw" k arbitrary: ss rule: wrap_lines.induct)
  case (1 desc k)
  let ?c = "unat cw"
  let ?n = "length desc"
  note small = 1(2)
  have k31: "k < 2 ^ 31" using 1(3) small by (rule le_less_trans)
  have ik: "int_to_size_t (word_of_nat k) = k" by (rule int_to_size_t_small[OF k31])
  show ?case
  proof (cases "k < ?n")
    case False
    then have "wrap_lines desc ?c k = []" by (subst wrap_lines.simps) simp
    moreover have "wrap_loop desc cw dp (word_of_nat k) ss = Some ss"
      using False by (subst wrap_loop.simps) (simp add: ik)
    ultimately show ?thesis by simp
  next
    case True
    define j where "j = skip_spaces desc k"
    define i' where "i' = (word_of_nat j :: 32 word) + cw"
    have jn: "j \<le> ?n" using True by (simp add: j_def skip_spaces_le)
    have "j \<le> ?n + ?c" using jn by simp
    then have j31: "j < 2 ^ 31" using small by (rule le_less_trans)
    have jcn: "j + ?c \<le> ?n + ?c" using jn by simp
    then have jc31: "j + ?c < 2 ^ 31" using small by (rule le_less_trans)
    have ij: "int_to_size_t (word_of_nat j) = j" by (rule int_to_size_t_small[OF j31])
    have i': "i' = word_of_nat (j + ?c)" by (simp add: i'_def)
    have "j + ?c < 2 ^ 32" using jc31 by simp
    then have u: "unat i' = j + ?c" unfolding i' by (rule unat_small)
    have ijc: "int_to_size_t i' = j + ?c" unfolding i' by (rule int_to_size_t_small[OF jc31])
    have unfold: "wrap_loop desc cw dp (word_of_nat k) ss
          = wrap_loop desc cw dp i'
              (if j + ?c < ?n
               then ss @ take ?c (drop j desc) @ [CHR 0x0A] @ replicate (unat dp) CHR '' ''
               else ss @ drop j desc)"
      using True
      by (subst wrap_loop.simps) (simp add: ik Let_def j_def[symmetric] ij i'_def[symmetric] u)
    show ?thesis
    proof (cases "j + ?c < ?n")
      case more: True
      have wl: "wrap_lines desc ?c k = take ?c (drop j desc) # wrap_lines desc ?c (j + ?c)"
        using True more assms(1) by (subst wrap_lines.simps) (simp add: j_def Let_def)
      have ne: "wrap_lines desc ?c (j + ?c) \<noteq> []"
        using more assms(1) by (simp add: wrap_lines_nonempty)
      have c: "k < ?n \<and> 0 < ?c" using True assms(1) by simp
      have ih: "wrap_loop desc cw dp i' ss'
           = Some (ss' @ join_lines (unat dp) (wrap_lines desc ?c (j + ?c)))" for ss'
        unfolding i' by (rule 1(1)[OF c j_def more small jcn])
      have "wrap_loop desc cw dp (word_of_nat k) ss
          = wrap_loop desc cw dp i'
              (ss @ take ?c (drop j desc) @ [CHR 0x0A] @ replicate (unat dp) CHR '' '')"
        using unfold more by simp
      also have "\<dots> = Some ((ss @ take ?c (drop j desc) @ [CHR 0x0A] @ replicate (unat dp) CHR '' '')
            @ join_lines (unat dp) (wrap_lines desc ?c (j + ?c)))"
        by (rule ih)
      also have "\<dots> = Some (ss @ join_lines (unat dp) (wrap_lines desc ?c k))"
        by (simp add: wl join_lines_Cons[OF ne])
      finally show ?thesis .
    next
      case last: False
      have wl: "wrap_lines desc ?c k = [drop j desc]"
        using True last assms(1) by (subst wrap_lines.simps) (simp add: j_def Let_def)
      have stop: "wrap_loop desc cw dp i' ss' = Some ss'" for ss'
        using last by (subst wrap_loop.simps) (simp add: ijc)
      have "wrap_loop desc cw dp (word_of_nat k) ss
          = wrap_loop desc cw dp i' (ss @ drop j desc)"
        using unfold last by simp
      also have "\<dots> = Some (ss @ drop j desc)" by (rule stop)
      finally show ?thesis by (simp add: wl)
    qed
  qed
qed

lemma wrap_lines_length: "l \<in> set (wrap_lines desc c k) \<Longrightarrow> length l \<le> c"
proof (induction desc c k rule: wrap_lines.induct)
  case (1 desc c k)
  show ?case
  proof (cases "k < length desc \<and> 0 < c")
    case False
    with 1(2) show ?thesis by (subst (asm) wrap_lines.simps) simp
  next
    case True
    define j where "j = skip_spaces desc k"
    show ?thesis
    proof (cases "j + c < length desc")
      case more: True
      have "wrap_lines desc c k = take c (drop j desc) # wrap_lines desc c (j + c)"
        using True more by (subst wrap_lines.simps) (simp add: j_def Let_def)
      with 1(2) have "l = take c (drop j desc) \<or> l \<in> set (wrap_lines desc c (j + c))" by simp
      then show ?thesis
      proof
        assume "l = take c (drop j desc)" then show ?thesis by simp
      next
        assume "l \<in> set (wrap_lines desc c (j + c))"
        with 1(1)[OF True j_def more] show ?thesis .
      qed
    next
      case last: False
      have "wrap_lines desc c k = [drop j desc]"
        using True last by (subst wrap_lines.simps) (simp add: j_def Let_def)
      with 1(2) last show ?thesis by simp
    qed
  qed
qed

lemma wrap_lines_start: "l \<in> set (wrap_lines desc c k) \<Longrightarrow> l \<noteq> [] \<Longrightarrow> hd l \<noteq> CHR '' ''"
proof (induction desc c k rule: wrap_lines.induct)
  case (1 desc c k)
  show ?case
  proof (cases "k < length desc \<and> 0 < c")
    case False
    with 1(2) show ?thesis by (subst (asm) wrap_lines.simps) simp
  next
    case True
    define j where "j = skip_spaces desc k"
    have first: "drop j desc \<noteq> [] \<Longrightarrow> hd (drop j desc) \<noteq> CHR '' ''"
      using skip_spaces_stops[of desc k] by (simp add: j_def hd_drop_conv_nth)
    show ?thesis
    proof (cases "j + c < length desc")
      case more: True
      have "wrap_lines desc c k = take c (drop j desc) # wrap_lines desc c (j + c)"
        using True more by (subst wrap_lines.simps) (simp add: j_def Let_def)
      with 1(2) have "l = take c (drop j desc) \<or> l \<in> set (wrap_lines desc c (j + c))" by simp
      then show ?thesis
      proof
        assume l: "l = take c (drop j desc)"
        with 1(3) True have "drop j desc \<noteq> []" by auto
        with first l True show ?thesis by (simp add: hd_take)
      next
        assume "l \<in> set (wrap_lines desc c (j + c))"
        with 1(1)[OF True j_def more] 1(3) show ?thesis by simp
      qed
    next
      case last: False
      have "wrap_lines desc c k = [drop j desc]"
        using True last by (subst wrap_lines.simps) (simp add: j_def Let_def)
      with 1(2,3) first show ?thesis by simp
    qed
  qed
qed

section \<open>The comparison with 30 percent of the width\<close>

text \<open>
  A terminal width is below \<open>2\<^sup>1\<^sup>6\<close>, and a remaining width below \<open>2\<^sup>2\<^sup>4\<close> is an exact
  \<^verbatim>\<open>float\<close>.  The product with \<^verbatim>\<open>0.3f\<close> is rounded, but the rounding never crosses a multiple
  of \<open>2\<^sup>2\<^sup>5\<close>: the test of the code is the test \<open>3 * width < 10 * remaining\<close> on natural
  numbers.
\<close>

lemma bitlen_le: "n < 2 ^ m \<Longrightarrow> bitlen n \<le> m"
proof (induction m arbitrary: n)
  case 0
  then show ?case by (subst bitlen.simps) simp
next
  case (Suc m)
  show ?case
  proof (cases "n = 0")
    case True
    then show ?thesis by (subst bitlen.simps) simp
  next
    case False
    have "n div 2 < 2 ^ m" using Suc.prems by auto
    then have "bitlen (n div 2) \<le> m" by (rule Suc.IH)
    with False show ?thesis by (subst bitlen.simps) simp
  qed
qed

lemma round24_small: "n < 2 ^ 24 \<Longrightarrow> round24 n = n"
proof -
  assume "n < 2 ^ 24"
  then have "bitlen n \<le> 24" by (rule bitlen_le)
  then have "bitlen n - 24 = 0" by simp
  then show ?thesis by (simp add: round24_def Let_def)
qed

lemma round24_bounds:
  "(n div 2 ^ (bitlen n - 24)) * 2 ^ (bitlen n - 24) \<le> round24 n
   \<and> round24 n \<le> n + 2 ^ (bitlen n - 24)"
proof -
  define s where "s = bitlen n - 24"
  define q where "q = n div 2 ^ s"
  have qn: "q * 2 ^ s \<le> n" by (simp add: q_def)
  have r: "round24 n = q * 2 ^ s \<or> round24 n = (q + 1) * 2 ^ s"
    by (simp add: round24_def Let_def s_def[symmetric] q_def[symmetric])
  have "q * 2 ^ s \<le> round24 n" using r by auto
  moreover have "round24 n \<le> n + 2 ^ s"
    using r
  proof
    assume "round24 n = q * 2 ^ s"
    with qn show ?thesis by simp
  next
    assume "round24 n = (q + 1) * 2 ^ s"
    with qn show ?thesis by (simp add: add_mult_distrib)
  qed
  ultimately show ?thesis by (simp add: s_def q_def)
qed

lemma float_gt_30_percent_exact:
  assumes w: "w < 2 ^ 16" and D: "D < 2 ^ 24"
  shows "float_gt_30_percent D w = (3 * w < 10 * D)"
proof -
  define P where "P = w * 10066330"
  define s where "s = bitlen P - 24"
  define k where "k = 3 * w div 10"
  define T where "T = (2::nat) ^ 25"
  have T: "T = 33554432" by (simp add: T_def)
  have k1: "10 * k \<le> 3 * w" and k2: "3 * w < 10 * (k + 1)"
    by (simp_all add: k_def)
  have w': "w < 65536" using w by simp
  have "P < 2 ^ 40" using w' by (simp add: P_def)
  then have "bitlen P \<le> 40" by (rule bitlen_le)
  then have s16: "s \<le> 16" by (simp add: s_def)
  then have "(2::nat) ^ s \<le> 2 ^ 16" by (rule power_increasing) simp
  then have p16: "(2::nat) ^ s \<le> 65536" by simp
  have rw: "round24 w = w" using w by (intro round24_small) simp
  have rD: "round24 D = D" using D by (rule round24_small)
  have b1: "(P div 2 ^ s) * 2 ^ s \<le> round24 P" and b2: "round24 P \<le> P + 2 ^ s"
    using round24_bounds[of P] by (simp_all add: s_def)
  have A: "k * T \<le> round24 P"
  proof -
    have "25 - s + s = 25" using s16 by simp
    then have split: "T = 2 ^ (25 - s) * 2 ^ s"
      unfolding T_def by (simp only: power_add[symmetric])
    have kT: "k * T = (k * 2 ^ (25 - s)) * 2 ^ s"
      by (subst split) (simp only: mult.assoc)
    have "k * T \<le> P" using k1 by (simp add: P_def T)
    then have "(k * T) div 2 ^ s \<le> P div 2 ^ s" by (rule div_le_mono)
    moreover have "(k * T) div 2 ^ s = k * 2 ^ (25 - s)"
      by (subst kT) simp
    ultimately have "k * 2 ^ (25 - s) \<le> P div 2 ^ s" by simp
    then have "(k * 2 ^ (25 - s)) * 2 ^ s \<le> (P div 2 ^ s) * 2 ^ s" by (rule mult_le_mono1)
    then have "k * T \<le> (P div 2 ^ s) * 2 ^ s" by (simp only: kT)
    then show ?thesis using b1 by (rule le_trans)
  qed
  have B: "round24 P < (k + 1) * T"
  proof -
    have "P + 65536 < (k + 1) * T" using k2 w' by (simp add: P_def T)
    with b2 p16 show ?thesis by simp
  qed
  have "float_gt_30_percent D w = (round24 P < D * T)"
    by (simp add: float_gt_30_percent_def rw rD P_def T)
  also have "\<dots> = (3 * w < 10 * D)"
  proof (cases "3 * w < 10 * D")
    case True
    then have "k + 1 \<le> D" using k1 by simp
    then have "(k + 1) * T \<le> D * T" by (rule mult_le_mono1)
    with B have "round24 P < D * T" by (rule less_le_trans)
    with True show ?thesis by simp
  next
    case False
    then have "D \<le> k" using k2 by simp
    then have "D * T \<le> k * T" by (rule mult_le_mono1)
    then have "D * T \<le> round24 P" using A by (rule le_trans)
    then have "\<not> round24 P < D * T" by (rule leD)
    with False show ?thesis by simp
  qed
  finally show ?thesis .
qed

section \<open>When registration returns\<close>

text \<open>
  A usage block that fits is built: the wrapping loop ends, and the block is the label
  followed by the lines of the description.
\<close>

lemma tty_width_range: "40 \<le> tty_width ws_col \<and> tty_width ws_col < 2 ^ 16"
proof -
  have "uint ws_col < 2 ^ 16" using uint_bounded[of ws_col] by simp
  then show ?thesis by (simp add: tty_width_def)
qed

lemma width_unat:
  "unat (word_of_int (tty_width ws_col) :: 32 word) = nat (tty_width ws_col)"
proof -
  have r: "40 \<le> tty_width ws_col" "tty_width ws_col < 2 ^ 16"
    using tty_width_range[of ws_col] by simp_all
  have "(word_of_int (tty_width ws_col) :: 32 word) = word_of_nat (nat (tty_width ws_col))"
    using r by simp
  moreover have "nat (tty_width ws_col) < 2 ^ 32" using r by simp
  ultimately show ?thesis by (simp add: unat_of_nat)
qed

lemma size_t_sub_le: "n \<le> w \<Longrightarrow> w < 2 ^ 16 \<Longrightarrow> size_t_sub w n = w - n"
proof -
  assume n: "n \<le> w" and w: "w < 2 ^ 16"
  have e: "int w - int n = int (w - n)" using n by simp
  have "int (w - n) < 2 ^ 64" using w by simp
  then have "int (w - n) mod 2 ^ 64 = int (w - n)" by simp
  then show ?thesis unfolding size_t_sub_def e by simp
qed

lemma desc_pos_exact:
  assumes "n \<le> w" and "w < 2 ^ 16"
  shows "desc_pos S (word_of_nat w) n
       = (if 3 * w < 10 * (w - n) then word_of_nat n else IndentFlag S + 2)"
proof -
  have w32: "w < 2 ^ 32" using assms(2) by simp
  have u: "unat (word_of_nat w :: 32 word) = w" using w32 by (simp add: unat_of_nat)
  have "w - n < 2 ^ 24" using assms(2) by simp
  then have f: "float_gt_30_percent (w - n) w = (3 * w < 10 * (w - n))"
    using assms(2) by (intro float_gt_30_percent_exact)
  show ?thesis
    unfolding desc_pos_def u size_t_sub_le[OF assms] f by (rule refl)
qed

lemma usage_block_fits:
  assumes "block_fits S ws_col flag long_flag (description @ get_default default_val)"
  shows "usage_block S ws_col flag long_flag default_val description =
     Some ((if desc_pos S (word_of_int (tty_width ws_col)) (length (padded_label S flag long_flag))
               = IndentFlag S + 2
            then padded_label S flag long_flag @ [CHR 0x0A] else padded_label S flag long_flag)
           @ join_lines
               (unat (desc_pos S (word_of_int (tty_width ws_col)) (length (padded_label S flag long_flag))))
               (wrap_lines (description @ get_default default_val)
                  (nat (tty_width ws_col)
                   - unat (desc_pos S (word_of_int (tty_width ws_col)) (length (padded_label S flag long_flag))))
                  0))
   \<and> unat (desc_pos S (word_of_int (tty_width ws_col)) (length (padded_label S flag long_flag)))
       < nat (tty_width ws_col)"
proof -
  define w where "w = nat (tty_width ws_col)"
  define n where "n = length (padded_label S flag long_flag)"
  define desc where "desc = description @ get_default default_val"
  define width where "width = (word_of_int (tty_width ws_col) :: 32 word)"
  define dp where "dp = desc_pos S width n"
  define cw where "cw = width - dp"
  have r: "40 \<le> tty_width ws_col" "tty_width ws_col < 2 ^ 16"
    using tty_width_range[of ws_col] by simp_all
  have w16: "w < 2 ^ 16" and w40: "40 \<le> w" using r by (simp_all add: w_def)
  have nw: "n \<le> w" and iw: "unat (IndentFlag S) + 2 < w" and dw: "length desc + w < 2 ^ 31"
    using assms by (simp_all add: block_fits_def w_def n_def desc_def)
  have width: "width = word_of_nat w" using r by (simp add: width_def w_def)
  have uw: "unat width = w" by (simp add: width_def w_def width_unat)
  have dpe: "dp = (if 3 * w < 10 * (w - n) then word_of_nat n else IndentFlag S + 2)"
    unfolding dp_def width by (rule desc_pos_exact[OF nw w16])
  have udp: "unat dp < w"
  proof (cases "3 * w < 10 * (w - n)")
    case True
    then have "n < w" using w40 by simp
    moreover have "n < 2 ^ 32" using nw w16 by simp
    then have "unat (word_of_nat n :: 32 word) = n" by (simp add: unat_of_nat)
    ultimately show ?thesis using True by (simp add: dpe)
  next
    case False
    have "unat (IndentFlag S) + 2 < 2 ^ 32" using iw w16 by simp
    then have "unat (IndentFlag S + 2) = unat (IndentFlag S) + 2"
      by (simp add: unat_add_lem[THEN iffD1])
    then show ?thesis using False iw by (simp add: dpe)
  qed
  have le: "dp \<le> width" using udp uw by (simp add: word_le_nat_alt)
  have ucw: "unat cw = w - unat dp" unfolding cw_def using le uw by (simp add: unat_sub)
  have pos: "0 < unat cw" using ucw udp by simp
  have small: "length desc + unat cw < 2 ^ 31" using dw ucw by simp
  have k: "0 \<le> length desc + unat cw" by simp
  have "wrap_loop desc cw dp (word_of_nat 0) ss
      = Some (ss @ join_lines (unat dp) (wrap_lines desc (unat cw) 0))" for ss
    by (rule wrap_loop_lines[OF pos small k])
  then have loop: "wrap_loop desc cw dp 0 ss
      = Some (ss @ join_lines (unat dp) (wrap_lines desc (w - unat dp) 0))" for ss
    by (simp add: ucw)
  have "usage_block S ws_col flag long_flag default_val description
      = wrap_loop desc cw dp 0
          (if dp = IndentFlag S + 2 then padded_label S flag long_flag @ [CHR 0x0A]
           else padded_label S flag long_flag)"
    by (simp add: usage_block_def Let_def column_width_def desc_def cw_def dp_def width_def n_def)
  then show ?thesis
    using udp unfolding loop by (simp add: dp_def width_def n_def desc_def w_def)
qed

lemma block_fits_indents:
  "IndentFlag S' = IndentFlag S \<Longrightarrow> IndentDescription S' = IndentDescription S \<Longrightarrow>
     block_fits S' ws_col flag long_flag desc = block_fits S ws_col flag long_flag desc"
  by (simp add: block_fits_def padded_label_indents[of S' S])

lemma reg_fits_indents:
  "IndentFlag S' = IndentFlag S \<Longrightarrow> IndentDescription S' = IndentDescription S \<Longrightarrow>
     reg_fits S' r = reg_fits S r"
  by (simp add: reg_fits_def block_fits_indents[of S' S])

lemma add_entry_returns:
  assumes nd1: "flag = CHR 0x00 \<or> setters S (char_int flag) = None"
    and nd2: "long_flag = [] \<or> long_flag \<notin> long_flags S"
    and fit: "description = [] \<or> (flag = CHR 0x00 \<and> long_flag = [])
       \<or> block_fits S ws_col flag long_flag (description @ get_default default_val)"
  shows "\<exists>S' opt'. add_entry ws_col opt flag long_flag default_val description grp S
       = Returned (S', opt')"
proof (cases "flag = CHR 0x00 \<and> long_flag = []")
  case True
  then show ?thesis by (simp add: add_entry_def)
next
  case False
  show ?thesis
  proof (cases "description = []")
    case True
    with False nd1 nd2 show ?thesis by (auto simp: add_entry_def Let_def)
  next
    case d: False
    with fit False have "block_fits S ws_col flag long_flag (description @ get_default default_val)"
      by blast
    then obtain b where b: "usage_block S ws_col flag long_flag default_val description = Some b"
      using usage_block_fits by blast
    have ub: "usage_block S' ws_col flag long_flag default_val description = Some b"
      if "IndentFlag S' = IndentFlag S" and "IndentDescription S' = IndentDescription S" for S'
      using usage_block_indents[OF that] b by simp
    from False nd1 nd2 d show ?thesis by (auto simp: add_entry_def Let_def ub)
  qed
qed

lemma register_returns:
  assumes "reg_flag r = CHR 0x00 \<or> setters S (char_int (reg_flag r)) = None"
    and "reg_long_flag r = [] \<or> reg_long_flag r \<notin> long_flags S"
    and "reg_fits S r"
  shows "\<exists>S'. register r (S, \<sigma>) = Returned (S', \<sigma>(reg_var r := reg_default r))"
proof (cases r)
  case (Reg_Add ws_col op var flag long_flag description default_val grp)
  have fit: "description = [] \<or> (flag = CHR 0x00 \<and> long_flag = [])
       \<or> block_fits S ws_col flag long_flag (description @ get_default default_val)"
    using assms(3) by (auto simp: Reg_Add reg_fits_def described_def names_a_flag_def split: if_splits)
  obtain S1 op1 where
    "add_entry ws_col op flag long_flag default_val description grp S = Returned (S1, op1)"
    using add_entry_returns[OF _ _ fit, of op grp] assms(1,2) by (auto simp: Reg_Add)
  then show ?thesis by (simp add: Reg_Add Add_def Let_def)
next
  case (Reg_AddSwitch ws_col op var flag long_flag description default_val grp)
  have fit: "description = [] \<or> (flag = CHR 0x00 \<and> long_flag = [])
       \<or> block_fits S ws_col flag long_flag (description @ get_default (VBool (as_bool (\<sigma> var))))"
    using assms(3)
    by (auto simp: Reg_AddSwitch reg_fits_def described_def names_a_flag_def split: if_splits)
  obtain S1 op1 where
    "add_entry ws_col op flag long_flag (VBool (as_bool (\<sigma> var))) description grp S = Returned (S1, op1)"
    using add_entry_returns[OF _ _ fit, of op grp] assms(1,2) by (auto simp: Reg_AddSwitch)
  then show ?thesis by (simp add: Reg_AddSwitch AddSwitch_def Let_def)
qed

lemma register_Returned_state:
  assumes "register r (S, \<sigma>) = Returned (S', \<sigma>')"
  shows "dom (setters S') = insert (if reg_flag r \<noteq> CHR 0x00 then char_int (reg_flag r)
                                     else if reg_long_flag r \<noteq> [] then optval S
                                     else o_val (reg_op r)) (dom (setters S))"
    and "long_flags S' = (if reg_long_flag r \<noteq> [] then insert (reg_long_flag r) (long_flags S)
                          else long_flags S)"
    and "optval S' = (if reg_flag r = CHR 0x00 \<and> reg_long_flag r \<noteq> [] then int_succ (optval S)
                      else optval S)"
    and "IndentFlag S' = IndentFlag S" and "IndentDescription S' = IndentDescription S"
proof -
  have "dom (setters S') = insert (if reg_flag r \<noteq> CHR 0x00 then char_int (reg_flag r)
                                     else if reg_long_flag r \<noteq> [] then optval S
                                     else o_val (reg_op r)) (dom (setters S))
    \<and> long_flags S' = (if reg_long_flag r \<noteq> [] then insert (reg_long_flag r) (long_flags S)
                          else long_flags S)
    \<and> optval S' = (if reg_flag r = CHR 0x00 \<and> reg_long_flag r \<noteq> [] then int_succ (optval S)
                      else optval S)
    \<and> IndentFlag S' = IndentFlag S \<and> IndentDescription S' = IndentDescription S"
  proof (cases r)
    case (Reg_Add ws_col op var flag long_flag description default_val grp)
    with assms obtain S1 op1 where
      ae: "add_entry ws_col op flag long_flag default_val description grp S = Returned (S1, op1)"
      and S': "S' = S1\<lparr>optstr := optstr S1 @ '':'',
               setters := (setters S1)(o_val op1 \<mapsto> Set_T (type_of default_val) var),
               options := options S1 @ [op1\<lparr>o_has_arg := required_argument\<rparr>]\<rparr>"
      by (auto simp: Add_def Let_def split: outcome.splits prod.splits)
    show ?thesis
    proof (cases "flag = CHR 0x00 \<and> long_flag = []")
      case True
      with ae have "S1 = S" "op1 = op" by (simp_all add: add_entry_def)
      with True show ?thesis by (simp add: S' Reg_Add)
    next
      case False
      note f = add_entry_Returned[OF ae False]
      show ?thesis using f(1-4,6,9,10) False by (auto simp: S' Reg_Add)
    qed
  next
    case (Reg_AddSwitch ws_col op var flag long_flag description default_val grp)
    with assms obtain S1 op1 where
      ae: "add_entry ws_col op flag long_flag (VBool (as_bool (\<sigma> var))) description grp S = Returned (S1, op1)"
      and S': "S' = S1\<lparr>setters := (setters S1)(o_val op1 \<mapsto> Negate var),
               options := options S1 @ [op1\<lparr>o_has_arg := optional_argument\<rparr>]\<rparr>"
      by (auto simp: AddSwitch_def Let_def split: outcome.splits prod.splits)
    show ?thesis
    proof (cases "flag = CHR 0x00 \<and> long_flag = []")
      case True
      with ae have "S1 = S" "op1 = op" by (simp_all add: add_entry_def)
      with True show ?thesis by (simp add: S' Reg_AddSwitch)
    next
      case False
      note f = add_entry_Returned[OF ae False]
      show ?thesis using f(1-4,6,9,10) False by (auto simp: S' Reg_AddSwitch)
    qed
  qed
  then show "dom (setters S') = insert (if reg_flag r \<noteq> CHR 0x00 then char_int (reg_flag r)
                                     else if reg_long_flag r \<noteq> [] then optval S
                                     else o_val (reg_op r)) (dom (setters S))"
    and "long_flags S' = (if reg_long_flag r \<noteq> [] then insert (reg_long_flag r) (long_flags S)
                          else long_flags S)"
    and "optval S' = (if reg_flag r = CHR 0x00 \<and> reg_long_flag r \<noteq> [] then int_succ (optval S)
                      else optval S)"
    and "IndentFlag S' = IndentFlag S" and "IndentDescription S' = IndentDescription S"
    by simp_all
qed


lemma registrable_Cons:
  assumes reg: "registrable S (r # rs)" and ret: "register r (S, \<sigma>) = Returned (S1, \<sigma>1)"
  shows "registrable S1 rs"
proof -
  note st = register_Returned_state[OF ret]
  have fits: "list_all (reg_fits S) rs"
    and dk: "distinct (short_key r @ concat (map short_key rs))"
    and dl: "distinct (filter (\<lambda>l. l \<noteq> []) (reg_long_flag r # map reg_long_flag rs))"
    and fs: "list_all (\<lambda>r. reg_flag r = CHR 0x00 \<or> setters S (char_int (reg_flag r)) = None) rs"
    and ls: "list_all (\<lambda>r. reg_long_flag r = [] \<or> reg_long_flag r \<notin> long_flags S) rs"
    and ge: "256 \<le> optval S" and bd: "optval S + 1 + int (length rs) < 2 ^ 31"
    using reg by (simp_all add: registrable_def)
  have succ: "int_succ (optval S) = optval S + 1"
    using ge bd by (intro int_succ_small) simp_all
  have "reg_fits S1 = reg_fits S"
    by (rule ext) (rule reg_fits_indents[OF st(4) st(5)])
  then have c1: "list_all (reg_fits S1) rs" using fits by simp
  have c2: "distinct (concat (map short_key rs))" using dk by simp
  have c3: "distinct (filter (\<lambda>l. l \<noteq> []) (map reg_long_flag rs))"
    using dl by (simp split: if_splits)
  have "set (short_key r) \<inter> set (concat (map short_key rs)) = {}" using dk by simp
  then have disj: "k \<in> set (short_key r) \<Longrightarrow> k \<notin> set (concat (map short_key rs))" for k
    by blast
  have c4: "list_all (\<lambda>r. reg_flag r = CHR 0x00 \<or> setters S1 (char_int (reg_flag r)) = None) rs"
    unfolding list_all_iff
  proof
    fix r' assume r': "r' \<in> set rs"
    show "reg_flag r' = CHR 0x00 \<or> setters S1 (char_int (reg_flag r')) = None"
    proof (cases "reg_flag r' = CHR 0x00")
      case True
      then show ?thesis by simp
    next
      case False
      have old: "char_int (reg_flag r') \<notin> dom (setters S)"
        using fs r' False by (auto simp: list_all_iff)
      have "char_int (reg_flag r') \<in> set (short_key r')" using False by (simp add: short_key_def)
      then have mem: "char_int (reg_flag r') \<in> set (concat (map short_key rs))"
        using r' by auto
      have new: "char_int (reg_flag r') \<noteq>
          (if reg_flag r \<noteq> CHR 0x00 then char_int (reg_flag r)
           else if reg_long_flag r \<noteq> [] then optval S else o_val (reg_op r))"
      proof (cases "reg_flag r \<noteq> CHR 0x00")
        case True
        then have "char_int (reg_flag r) \<in> set (short_key r)" by (simp add: short_key_def)
        then have "char_int (reg_flag r) \<notin> set (concat (map short_key rs))" by (rule disj)
        with mem have "char_int (reg_flag r') \<noteq> char_int (reg_flag r)" by metis
        with True show ?thesis by simp
      next
        case nf: False
        show ?thesis
        proof (cases "reg_long_flag r \<noteq> []")
          case True
          have "char_int (reg_flag r') < 256" by (rule char_int_less_256)
          with ge nf True show ?thesis by simp
        next
          case nl: False
          with nf have "o_val (reg_op r) \<in> set (short_key r)" by (simp add: short_key_def)
          then have "o_val (reg_op r) \<notin> set (concat (map short_key rs))" by (rule disj)
          with mem have "char_int (reg_flag r') \<noteq> o_val (reg_op r)" by metis
          with nf nl show ?thesis by simp
        qed
      qed
      from old new have "char_int (reg_flag r') \<notin> dom (setters S1)"
        unfolding st(1) by blast
      then show ?thesis by blast
    qed
  qed
  have c5: "list_all (\<lambda>r. reg_long_flag r = [] \<or> reg_long_flag r \<notin> long_flags S1) rs"
    unfolding list_all_iff
  proof
    fix r' assume r': "r' \<in> set rs"
    show "reg_long_flag r' = [] \<or> reg_long_flag r' \<notin> long_flags S1"
    proof (cases "reg_long_flag r' = []")
      case True
      then show ?thesis by simp
    next
      case False
      have old: "reg_long_flag r' \<notin> long_flags S"
        using ls r' False by (auto simp: list_all_iff)
      have mem: "reg_long_flag r' \<in> set (filter (\<lambda>l. l \<noteq> []) (map reg_long_flag rs))"
        using r' False by simp
      have "reg_long_flag r \<noteq> [] \<Longrightarrow> reg_long_flag r' \<noteq> reg_long_flag r"
        using dl mem by auto
      with old show ?thesis unfolding st(2) by auto
    qed
  qed
  have c6: "256 \<le> optval S1" using ge succ by (simp add: st(3))
  have c7: "optval S1 + int (length rs) < 2 ^ 31" using bd succ by (simp add: st(3))
  show ?thesis
    unfolding registrable_def using c1 c2 c3 c4 c5 c6 c7 by blast
qed

lemma register_all_returns:
  "registrable S rs \<Longrightarrow> \<exists>m. register_all rs (S, \<sigma>) = Returned m"
proof (induction rs arbitrary: S \<sigma>)
  case Nil
  then show ?case by simp
next
  case (Cons r rs)
  have "reg_flag r = CHR 0x00 \<or> setters S (char_int (reg_flag r)) = None"
    and "reg_long_flag r = [] \<or> reg_long_flag r \<notin> long_flags S"
    and "reg_fits S r"
    using Cons.prems by (simp_all add: registrable_def)
  then obtain S1 where r: "register r (S, \<sigma>) = Returned (S1, \<sigma>(reg_var r := reg_default r))"
    using register_returns by blast
  have "registrable S1 rs" by (rule registrable_Cons[OF Cons.prems r])
  then obtain m where "register_all rs (S1, \<sigma>(reg_var r := reg_default r)) = Returned m"
    using Cons.IH by blast
  with r show ?case by simp
qed

section \<open>Defaults\<close>

text \<open>
  C10.  Registrations that the object accepts all return, and \<^verbatim>\<open>Add\<close> and \<^verbatim>\<open>AddSwitch\<close>
  assign the default to the bound variable during the call: after them the variable at
  any address holds the default declared by the last registration that binds it, whatever
  it held before, and a variable that no registration binds holds what it held.  For a
  single registration (\<open>rs = [r]\<close>) this is the assignment during the call itself.
\<close>

theorem registration_assigns_defaults:
  assumes "registrable S0 rs"
  shows "\<exists>S \<sigma>. register_all rs (S0, \<sigma>0) = Returned (S, \<sigma>)
     \<and> (\<forall>a. \<sigma> a = (case declared_default rs a of Some d \<Rightarrow> d | None \<Rightarrow> \<sigma>0 a))"
proof -
  from register_all_returns[OF assms] obtain S \<sigma> where
    r: "register_all rs (S0, \<sigma>0) = Returned (S, \<sigma>)" by fastforce
  have "\<forall>a. \<sigma> a = (case declared_default rs a of Some d \<Rightarrow> d | None \<Rightarrow> \<sigma>0 a)"
    using register_all_store[OF r] by blast
  with r show ?thesis by blast
qed

lemma example_registrable: "registrable Options_new [verbose_switch, wide_flag]"
proof -
  have l: "padded_label Options_new CHR ''w'' ''width'' = ''  -w --width      ''"
    by (simp add: Options_new_def label_eval)
  have w: "tty_width 40 = 40" by (simp add: tty_width_def)
  have i: "unat (IndentFlag Options_new) = 2" by (simp add: Options_new_def)
  have f: "reg_fits Options_new wide_flag"
    unfolding reg_fits_def wide_flag_def
    by (simp add: described_def names_a_flag_def block_fits_def l w i digits10.simps)
  have v: "reg_fits Options_new verbose_switch"
    by (simp add: reg_fits_def verbose_switch_def described_def)
  show ?thesis
    unfolding registrable_def
    using f v
    by (simp add: short_key_def char_int_def) (simp add: verbose_switch_def wide_flag_def Options_new_def)
qed

theorem registration_assigns_defaults_witness:
  "registrable Options_new [verbose_switch, wide_flag]
   \<and> (\<exists>S \<sigma>. register_all [verbose_switch, wide_flag] (Options_new, store0) = Returned (S, \<sigma>)
         \<and> \<sigma> 0 = VBool False \<and> \<sigma> 2 = VUnsigned 8 \<and> \<sigma> 1 = store0 1)"
proof -
  from registration_assigns_defaults [OF example_registrable, of store0]
  obtain S \<sigma> where r: "register_all [verbose_switch, wide_flag] (Options_new, store0) = Returned (S, \<sigma>)"
    and a: "\<And>a. \<sigma> a = (case declared_default [verbose_switch, wide_flag] a of
                           Some d \<Rightarrow> d | None \<Rightarrow> store0 a)"
    by blast
  have "\<sigma> 0 = VBool False" "\<sigma> 2 = VUnsigned 8" "\<sigma> 1 = store0 1"
    by (simp_all add: a verbose_switch_def wide_flag_def)
  with r example_registrable show ?thesis by blast
qed

text \<open>
  Outside that domain a registration need not return.  On a terminal of 40 columns, the
  label of \<open>-x\<close> with a long flag of 35 characters is longer than the terminal, the column
  width wraps around to \<open>2\<^sup>3\<^sup>2 - 4\<close>, and for the description \<open>    x\<close> the loop skips the four
  spaces, adds the column width to 4, which gives 0, and starts again: \<^verbatim>\<open>Add\<close> never reaches
  the assignment of the default.
\<close>

lemma skip4: "skip_spaces ''    x'' 0 = 4"
  by (simp add: skip_spaces.simps)

lemma wrap_loop_never_returns_aux:
  assumes "wrap_loop desc cw dp i ss = Some y"
  shows "\<not> (desc = ''    x'' \<and> cw = 4294967292 \<and> i = 0)"
proof (rule wrap_loop.raw_induct
    [where P = "\<lambda>desc cw dp i ss y. \<not> (desc = ''    x'' \<and> cw = 4294967292 \<and> i = 0)", OF _ assms])
  fix wl :: "string \<Rightarrow> 32 word \<Rightarrow> 32 word \<Rightarrow> 32 word \<Rightarrow> string \<Rightarrow> string option"
    and desc :: string and cw dp i :: "32 word" and ss y :: string
  assume ih: "\<And>desc cw dp i ss y. wl desc cw dp i ss = Some y \<Longrightarrow>
      \<not> (desc = ''    x'' \<and> cw = 4294967292 \<and> i = 0)"
    and body: "(if int_to_size_t i < length desc then
        (let j = (word_of_nat (skip_spaces desc (int_to_size_t i)) :: 32 word) in
         wl desc cw dp (j + cw)
           (if unat (j + cw) < length desc
            then ss @ take (unat cw) (drop (int_to_size_t j) desc)
                    @ [CHR 0x0A] @ replicate (unat dp) CHR '' ''
            else ss @ drop (int_to_size_t j) desc))
      else Some ss) = Some y"
  show "\<not> (desc = ''    x'' \<and> cw = 4294967292 \<and> i = 0)"
  proof
    assume a: "desc = ''    x'' \<and> cw = 4294967292 \<and> i = 0"
    have z: "(4294967296 :: 32 word) = 0" by simp
    have "\<exists>ss'. wl ''    x'' 4294967292 dp 0 ss' = Some y"
      using body a by (auto simp: int_to_size_t_def skip4 Let_def z)
    then obtain ss' where "wl ''    x'' 4294967292 dp 0 ss' = Some y" by blast
    from ih[OF this] show False by simp
  qed
qed

lemma wrap_loop_never_returns: "wrap_loop ''    x'' 4294967292 dp 0 ss = None"
proof (cases "wrap_loop ''    x'' 4294967292 dp 0 ss")
  case None
  then show ?thesis .
next
  case (Some y)
  from wrap_loop_never_returns_aux[OF Some] show ?thesis by simp
qed


lemma block_never_built:
  "usage_block Options_new 40 CHR ''x'' long_name (VString []) ''    x'' = None"
proof (rule usage_block_eval[where ss = "''  -x --aaaaaaaaaaaaaaaaaaaaaaaaaaaaaaaaaaa  ''"
      and n = 44 and w = 40 and dp = 44 and cw = 4294967292])
  show "padded_label Options_new CHR ''x'' long_name = ''  -x --aaaaaaaaaaaaaaaaaaaaaaaaaaaaaaaaaaa  ''"
    by (simp add: long_name_def Options_new_def label_eval)
  show "length ''  -x --aaaaaaaaaaaaaaaaaaaaaaaaaaaaaaaaaaa  '' = 44" by simp
  show "word_of_int (tty_width 40) = (40 :: 32 word)" by (simp add: tty_width_def)
  show "desc_pos Options_new 40 44 = 44" by (simp add: desc_pos_eval)
  show "(40 :: 32 word) - 44 = 4294967292" by simp
  show "wrap_loop (''    x'' @ get_default (VString [])) 4294967292 44 0
       (if 44 = IndentFlag Options_new + 2
        then ''  -x --aaaaaaaaaaaaaaaaaaaaaaaaaaaaaaaaaaa  '' @ [CHR 0x0A]
        else ''  -x --aaaaaaaaaaaaaaaaaaaaaaaaaaaaaaaaaaa  '') = None"
    by (simp add: wrap_loop_never_returns)
qed

lemma registration_never_returns:
  "register (Reg_Add 40 op var CHR ''x'' long_name ''    x'' (VString []) grp) (Options_new, \<sigma>)
     = Hangs"
proof -
  have ub: "usage_block S' 40 CHR ''x'' long_name (VString []) ''    x'' = None"
    if "IndentFlag S' = IndentFlag Options_new" and "IndentDescription S' = IndentDescription Options_new"
    for S'
    using usage_block_indents[OF that] block_never_built by simp
  have n: "long_name \<noteq> []" by (simp add: long_name_def)
  have s: "setters Options_new = Map.empty" "long_flags Options_new = {}"
    by (simp_all add: Options_new_def)
  show ?thesis
    by (simp add: Add_def add_entry_def Let_def ub n s)
qed

section \<open>A label longer than the terminal\<close>

text \<open>
  C9.  On a terminal of 40 columns, a flag \<open>-x\<close> with a long name of 35 characters has a
  padded label of 44 characters.  \<^verbatim>\<open>width - ss.str().length()\<close> wraps around in \<^verbatim>\<open>size_t\<close>, the
  test against \<^verbatim>\<open>width * 0.3f\<close> succeeds, and the description starts at column 44 on the
  line of the label: there is no fall back to \<^verbatim>\<open>IndentFlag + 2\<close>, and the column width
  \<^verbatim>\<open>width - desc_pos\<close> wraps around to \<open>2\<^sup>3\<^sup>2 - 4\<close>.
\<close>

theorem label_longer_than_terminal:
  "length (padded_label Options_new CHR ''x'' long_name) = 44
   \<and> tty_width 40 = 40
   \<and> size_t_sub 40 44 = 2 ^ 64 - 4
   \<and> desc_pos Options_new 40 44 = 44
   \<and> IndentFlag Options_new + 2 = 4
   \<and> column_width Options_new 40 44 = 4294967292
   \<and> usage_block Options_new 40 CHR ''x'' long_name (VString []) ''Output file''
       = Some (padded_label Options_new CHR ''x'' long_name @ ''Output file'')"
proof -
  have l: "padded_label Options_new CHR ''x'' long_name
      = ''  -x --aaaaaaaaaaaaaaaaaaaaaaaaaaaaaaaaaaa  ''"
    by (simp add: long_name_def Options_new_def label_eval)
  have n: "length ''  -x --aaaaaaaaaaaaaaaaaaaaaaaaaaaaaaaaaaa  '' = 44" by simp
  have w: "tty_width 40 = 40" by (simp add: tty_width_def)
  have s: "size_t_sub 40 44 = 2 ^ 64 - 4" by (simp add: size_t_sub_def)
  have dp: "desc_pos Options_new 40 44 = 44" by (simp add: desc_pos_eval)
  have i: "IndentFlag Options_new + 2 = 4" by (simp add: Options_new_def)
  have cw: "column_width Options_new 40 44 = 4294967292" by (simp add: column_width_def dp)
  have b: "usage_block Options_new 40 CHR ''x'' long_name (VString []) ''Output file''
       = Some (''  -x --aaaaaaaaaaaaaaaaaaaaaaaaaaaaaaaaaaa  '' @ ''Output file'')"
  proof (rule usage_block_eval[where ss = "''  -x --aaaaaaaaaaaaaaaaaaaaaaaaaaaaaaaaaaa  ''"
        and n = 44 and w = 40 and dp = 44 and cw = 4294967292])
    show "padded_label Options_new CHR ''x'' long_name = ''  -x --aaaaaaaaaaaaaaaaaaaaaaaaaaaaaaaaaaa  ''"
      by (rule l)
    show "length ''  -x --aaaaaaaaaaaaaaaaaaaaaaaaaaaaaaaaaaa  '' = 44" by (rule n)
    show "word_of_int (tty_width 40) = (40 :: 32 word)" by (simp add: w)
    show "desc_pos Options_new 40 44 = 44" by (rule dp)
    show "(40 :: 32 word) - 44 = 4294967292" by simp
    show "wrap_loop (''Output file'' @ get_default (VString [])) 4294967292 44 0
       (if 44 = IndentFlag Options_new + 2
        then ''  -x --aaaaaaaaaaaaaaaaaaaaaaaaaaaaaaaaaaa  '' @ [CHR 0x0A]
        else ''  -x --aaaaaaaaaaaaaaaaaaaaaaaaaaaaaaaaaaa  '')
       = Some (''  -x --aaaaaaaaaaaaaaaaaaaaaaaaaaaaaaaaaaa  '' @ ''Output file'')"
      by (simp add: i wrap_eval)
  qed
  show ?thesis
    unfolding l n using w s dp i cw b by simp
qed

end
